theory Spec2Isabelle
  imports Main
begin

section \<open>Python values\<close>

text \<open>
  A Python \<open>str\<close> is a sequence of Unicode code points, and \<open>len\<close>, slicing, \<open>split\<close> and
  \<open>re.sub\<close> all work on code points. It is modelled as a list of natural numbers, so that
  characters beyond Latin-1 (the dashes of \<open>PROMPT\<close>, the lone surrogates that
  \<open>sys.argv\<close> may carry) are single elements, as they are for the program. \<open>str\<close>
  turns an ASCII literal into such a list.
\<close>

type_synonym pystr = "nat list"

definition str :: "string \<Rightarrow> pystr" where
  "str s = map of_char s"

text \<open>
  \<open>str.strip()\<close> with no argument removes leading and trailing whitespace; \<open>isspace\<close> lists
  the code points that CPython counts as whitespace.
\<close>

definition isspace :: "nat \<Rightarrow> bool" where
  "isspace c \<longleftrightarrow>
     (9 \<le> c \<and> c \<le> 13) \<or> (28 \<le> c \<and> c \<le> 32) \<or> c = 133 \<or> c = 160 \<or> c = 5760 \<or>
     (8192 \<le> c \<and> c \<le> 8202) \<or> c = 8232 \<or> c = 8233 \<or> c = 8239 \<or> c = 8287 \<or> c = 12288"

definition str_strip :: "pystr \<Rightarrow> pystr" where
  "str_strip s = rev (dropWhile isspace (rev (dropWhile isspace s)))"

text \<open>
  \<open>s.split(sep)\<close> for a one-character separator: the pieces between the separators, in
  order. The result is never the empty list (splitting the empty string gives one empty
  piece), so the first branch of the \<open>case\<close> is never taken.
\<close>

fun str_split :: "nat \<Rightarrow> pystr \<Rightarrow> pystr list" where
  "str_split sep [] = [[]]"
| "str_split sep (c # cs) =
     (case str_split sep cs of
        [] \<Rightarrow> [[c]]
      | w # ws \<Rightarrow> if c = sep then [] # w # ws else (c # w) # ws)"

text \<open>Decimal digits of a natural number, most significant first.\<close>

fun dec :: "nat \<Rightarrow> pystr" where
  "dec n = (if n < 10 then [48 + n] else dec (n div 10) @ [48 + n mod 10])"

declare dec.simps [simp del]

text \<open>
  The format specification \<open>05d\<close>: at least five characters, padded with zeros between
  the sign and the digits; a longer number is printed in full.
\<close>

definition zfill :: "nat \<Rightarrow> pystr \<Rightarrow> pystr" where
  "zfill w s = replicate (w - length s) 48 @ s"

definition fmt_05d :: "int \<Rightarrow> pystr" where
  "fmt_05d i = (if i < 0 then 45 # zfill 4 (dec (nat (- i))) else zfill 5 (dec (nat i)))"

section \<open>generate\_jsonl.py: the request encoder\<close>

text \<open>
  \<^verbatim>\<open>
  def safe_stem_from_url(url: str) -> str:
      stem = url.strip().split("?")[0].split("/")[-1] or "image"
      stem = re.sub(r"[^A-Za-z0-9._-]", "_", stem)
      return stem[:60]
  \<close>
  \<open>in_class\<close> is the character class \<open>[A-Za-z0-9._-]\<close> of the regular expression
  (63 is \<open>?\<close>, 47 is \<open>/\<close>, 95 is \<open>_\<close>).
\<close>

definition in_class :: "nat \<Rightarrow> bool" where
  "in_class c \<longleftrightarrow>
     (of_char CHR ''A'' \<le> c \<and> c \<le> of_char CHR ''Z'') \<or>
     (of_char CHR ''a'' \<le> c \<and> c \<le> of_char CHR ''z'') \<or>
     (of_char CHR ''0'' \<le> c \<and> c \<le> of_char CHR ''9'') \<or>
     c = of_char CHR ''.'' \<or> c = of_char CHR ''_'' \<or> c = of_char CHR ''-''"

definition re_sub_class :: "pystr \<Rightarrow> pystr" where
  "re_sub_class stem = map (\<lambda>c. if in_class c then c else of_char CHR ''_'') stem"

definition safe_stem_from_url :: "pystr \<Rightarrow> pystr" where
  "safe_stem_from_url url =
     (let stem = last (str_split (of_char CHR ''/'') (hd (str_split (of_char CHR ''?'') (str_strip url))));
          stem = (if stem = [] then str ''image'' else stem);
          stem = re_sub_class stem
      in take 60 stem)"

text \<open>
  Line 67, \<^verbatim>\<open>custom_id = f"ui-{idx:05d}-{safe_stem_from_url(url)}"\<close>.
\<close>

definition custom_id :: "int \<Rightarrow> pystr \<Rightarrow> pystr" where
  "custom_id idx url = str ''ui-'' @ fmt_05d idx @ str ''-'' @ safe_stem_from_url url"

text \<open>
  The request is a Python dictionary of strings, numbers, booleans, lists and
  dictionaries, which is also what \<open>json.dumps\<close> takes. A dictionary keeps its keys in
  insertion order, so it is an association list. A \<open>float\<close> is kept as the text that
  \<open>float.__repr__\<close> gives for it (\<open>0.2\<close>), which is all the program does with it.
\<close>

datatype json =
    JNull
  | JBool bool
  | JInt int
  | JFloat pystr
  | JStr pystr
  | JArr "json list"
  | JObj "(pystr \<times> json) list"

text \<open>\<open>d[k] = v\<close>: a key that is present keeps its position, a new key goes last.\<close>

fun dict_set :: "'k \<Rightarrow> 'v \<Rightarrow> ('k \<times> 'v) list \<Rightarrow> ('k \<times> 'v) list" where
  "dict_set k v [] = [(k, v)]"
| "dict_set k v ((k', v') # kvs) =
     (if k' = k then (k, v) # kvs else (k', v') # dict_set k v kvs)"

definition DIMENSIONS :: "pystr list" where
  "DIMENSIONS =
     [str ''aesthetics'', str ''level_of_detail'', str ''utility_for_designer'',
      str ''orderliness'', str ''complexity'', str ''overall'']"

text \<open>8211 is the en dash and 8212 the em dash of the source text.\<close>

definition PROMPT :: pystr where
  "PROMPT =
     str ''Rate screenshots on three 1'' @ [8211] @ str ''10 integer scales:'' @
     str ''1. Aesthetic '' @ [8212] @
     str '' visual quality based on layout, color, typography, and polish.Avoid high scores for flat or noisy designs.'' @
     str ''2. Level of Detail '' @ [8212] @
     str '' richness and structure of components, organization. Be forgiving with sparse drafts; lightly penalize repetition.'' @
     str ''3. Utility for Designers '' @ [8212] @
     str '' usefulness for design inspiration, based on aesthetic+detail but adjusted for clarity and layout richness.'' @
     str ''4. Orderliness '' @ [8212] @ str '' how orderly the UI appears.'' @
     str ''5. Complexity - how visually complex the UI appears in the screenshot'' @
     str ''6. Overall - rate the website design on a 10 point scale'' @
     str ''Return only numbers (no explanations).''"

text \<open>
  \<^verbatim>\<open>
  def build_json_schema(dimensions):
      props = {}
      for d in dimensions:
           props[d] = {"type": "integer", "minimum": 1, "maximum": 10}
      return {"type": "object", "additionalProperties": False,
              "properties": props, "required": list(props.keys())}
  \<close>
\<close>

definition build_json_schema :: "pystr list \<Rightarrow> json" where
  "build_json_schema dimensions =
     (let props = foldl (\<lambda>props d. dict_set d
            (JObj [(str ''type'', JStr (str ''integer'')),
                   (str ''minimum'', JInt 1), (str ''maximum'', JInt 10)]) props) [] dimensions
      in JObj [(str ''type'', JStr (str ''object'')),
               (str ''additionalProperties'', JBool False),
               (str ''properties'', JObj props),
               (str ''required'', JArr (map (\<lambda>kv. JStr (fst kv)) props))])"

text \<open>
  \<open>make_request_line\<close>, lines 66 to 98: the dictionary it returns, key by key.
\<close>

definition make_request_line :: "int \<Rightarrow> pystr \<Rightarrow> pystr \<Rightarrow> pystr \<Rightarrow> json" where
  "make_request_line idx url model temperature =
     (let body = JObj
        [(str ''model'', JStr model),
         (str ''input'', JArr
            [JObj [(str ''role'', JStr (str ''user'')),
                   (str ''content'', JArr
                      [JObj [(str ''type'', JStr (str ''input_text'')),
                             (str ''text'', JStr PROMPT)],
                       JObj [(str ''type'', JStr (str ''input_image'')),
                             (str ''image_url'', JStr (str_strip url))]])]]),
         (str ''text'', JObj
            [(str ''format'', JObj
                [(str ''type'', JStr (str ''json_schema'')),
                 (str ''name'', JStr (str ''UIRatings'')),
                 (str ''strict'', JBool True),
                 (str ''schema'', build_json_schema DIMENSIONS)])]),
         (str ''temperature'', JFloat temperature),
         (str ''max_output_tokens'', JInt 400)]
      in JObj [(str ''custom_id'', JStr (custom_id idx url)),
               (str ''method'', JStr (str ''POST'')),
               (str ''url'', JStr (str ''/v1/responses'')),
               (str ''body'', body)])"

text \<open>
  Reading a request back: \<open>d[k]\<close> on a dictionary and \<open>xs[i]\<close> on a list, \<open>None\<close> where
  Python raises \<open>KeyError\<close>, \<open>IndexError\<close> or \<open>TypeError\<close>. The target of a request is the
  \<open>image_url\<close> of the second content part of its first input message.
\<close>

fun json_get :: "json \<Rightarrow> pystr \<Rightarrow> json option" where
  "json_get (JObj kvs) k = map_of kvs k"
| "json_get _ k = None"

fun json_nth :: "json \<Rightarrow> nat \<Rightarrow> json option" where
  "json_nth (JArr xs) i = (if i < length xs then Some (xs ! i) else None)"
| "json_nth _ i = None"

fun json_str :: "json \<Rightarrow> pystr option" where
  "json_str (JStr s) = Some s"
| "json_str _ = None"

definition request_custom_id :: "json \<Rightarrow> pystr option" where
  "request_custom_id r = Option.bind (json_get r (str ''custom_id'')) json_str"

definition request_target :: "json \<Rightarrow> pystr option" where
  "request_target r =
     Option.bind (json_get r (str ''body'')) (\<lambda>body.
     Option.bind (json_get body (str ''input'')) (\<lambda>inp.
     Option.bind (json_nth inp 0) (\<lambda>msg.
     Option.bind (json_get msg (str ''content'')) (\<lambda>content.
     Option.bind (json_nth content 1) (\<lambda>part.
     Option.bind (json_get part (str ''image_url'')) json_str)))))"

text \<open>
  The loop of \<open>main\<close>, lines 116 and 117: \<open>requests i urls\<close> is the sequence of values
  that \<open>line\<close> takes when \<open>enumerate\<close> starts at \<open>i\<close>. \<open>read_urls\<close> is line 108, on the
  lines of the input file.
\<close>

fun requests :: "int \<Rightarrow> pystr list \<Rightarrow> pystr \<Rightarrow> pystr \<Rightarrow> json list" where
  "requests i [] model temperature = []"
| "requests i (url # urls) model temperature =
     make_request_line i url model temperature # requests (i + 1) urls model temperature"

definition read_urls :: "pystr list \<Rightarrow> pystr list" where
  "read_urls lns = map str_strip (filter (\<lambda>ln. str_strip ln \<noteq> []) lns)"

section \<open>The custom\_id rule in the words of the specification\<close>

text \<open>
  The specification derives the slug from the target in four steps: strip the query
  parameters, take the trailing path segment, replace every character outside
  \<open>[A-Za-z0-9._-]\<close> with an underscore, truncate to the maximum length. These definitions
  follow that sentence and not the code; the identifier joins the padded index and the slug
  in the format of the specification's scenario.
\<close>

definition strip_query :: "pystr \<Rightarrow> pystr" where
  "strip_query target = takeWhile (\<lambda>c. c \<noteq> of_char CHR ''?'') target"

definition trailing_segment :: "pystr \<Rightarrow> pystr" where
  "trailing_segment target = rev (takeWhile (\<lambda>c. c \<noteq> of_char CHR ''/'') (rev target))"

definition sanitize :: "pystr \<Rightarrow> pystr" where
  "sanitize s = map (\<lambda>c. if in_class c then c else of_char CHR ''_'') s"

definition spec_slug :: "pystr \<Rightarrow> pystr" where
  "spec_slug target = take 60 (sanitize (trailing_segment (strip_query target)))"

definition spec_custom_id :: "int \<Rightarrow> pystr \<Rightarrow> pystr" where
  "spec_custom_id idx target = str ''ui-'' @ fmt_05d idx @ str ''-'' @ spec_slug target"

section \<open>Reading decimal digits\<close>

text \<open>Used in the proofs only: the digits \<open>0\<close> to \<open>9\<close> and the number a digit string denotes.\<close>

definition digit :: "nat \<Rightarrow> bool" where
  "digit c \<longleftrightarrow> 48 \<le> c \<and> c \<le> 57"

definition undec :: "pystr \<Rightarrow> nat" where
  "undec s = foldl (\<lambda>a c. 10 * a + (c - 48)) 0 s"

section \<open>run\_batch.py: polling and download\<close>

text \<open>
  The snapshot of a batch that \<open>client.batches.retrieve\<close> returns, with the attributes the
  program reads. \<open>status\<close> is \<open>None\<close> when the snapshot has no such attribute (a status
  that is there is a string); \<open>counts\<close> (the attribute \<open>request_counts\<close>) and the two file
  identifiers are \<open>None\<close> when the attribute is missing or is \<open>None\<close>.
\<close>

record request_counts =
  total :: int
  completed :: int
  failed :: int

record batch =
  status :: "pystr option"
  counts :: "request_counts option"
  output_file_id :: "pystr option"
  error_file_id :: "pystr option"

text \<open>Line 16, \<^verbatim>\<open>TERMINAL = {"completed", "failed", "expired", "cancelled"}\<close>.\<close>

definition TERMINAL :: "pystr set" where
  "TERMINAL = {str ''completed'', str ''failed'', str ''expired'', str ''cancelled''}"

text \<open>\<open>str(i)\<close> for an integer, as an f-string prints it.\<close>

definition str_int :: "int \<Rightarrow> pystr" where
  "str_int i = (if i < 0 then 45 # dec (nat (- i)) else dec (nat i))"

text \<open>
  What the program does to the world, in order: a status query (numbered from 0), a line
  printed, a sleep of so many seconds, the download of a remote file to a path.
\<close>

datatype event = Query nat | Print pystr | Sleep int | Save pystr pystr

datatype error = SystemExit pystr | UnicodeEncodeError | ValueError

text \<open>Lines 63 to 68: the status read with its default, and the progress line.\<close>

definition status_of :: "batch \<Rightarrow> pystr" where
  "status_of b = (case status b of None \<Rightarrow> str ''unknown'' | Some s \<Rightarrow> s)"

definition progress_line :: "batch \<Rightarrow> pystr" where
  "progress_line b =
     (case counts b of
        Some c \<Rightarrow> str ''['' @ status_of b @ str ''] total='' @ str_int (total c) @
                 str '' completed='' @ str_int (completed c) @
                 str '' failed='' @ str_int (failed c)
      | None \<Rightarrow> str ''['' @ status_of b @ str '']'')"

text \<open>
  \<^verbatim>\<open>
  while True:
      b = client.batches.retrieve(batch_id)
      status = getattr(b, "status", "unknown")
      counts = getattr(b, "request_counts", None)
      if counts: print(...)  else: print(f"[{status}]")
      if status in TERMINAL:
          break
      time.sleep(args.poll)
  \<close>
  The remote service is the sequence of snapshots it answers with: \<open>remote n\<close> is the answer
  to query number \<open>n\<close> of the loop. The loop may run forever, so its result is an \<open>option\<close>:
  \<open>None\<close> is "does not return". When it returns, it returns the events since the start and
  either the last snapshot or the exception that ended it: \<open>time.sleep\<close> raises
  \<open>ValueError\<close> for a negative interval. A query that fails in the network ends the program
  with the client's exception and is not part of the model.
\<close>

partial_function (option) poll_loop ::
  "(nat \<Rightarrow> batch) \<Rightarrow> int \<Rightarrow> nat \<Rightarrow> event list \<Rightarrow> (event list \<times> (error + batch)) option" where
  "poll_loop remote poll n evs =
     (let b = remote n;
          evs = evs @ [Query n, Print (progress_line b)]
      in if status_of b \<in> TERMINAL then Some (evs, Inr b)
         else if poll < 0 then Some (evs, Inl ValueError)
         else poll_loop remote poll (n + 1) (evs @ [Sleep poll]))"

text \<open>
  Counting the lines of a text file as \<open>sum(1 for _ in open(path))\<close> does: a line ends at
  \<open>\n\<close>, at \<open>\r\<close> or at \<open>\r\n\<close>, and a last line without an end counts when it is not
  empty. The state says whether characters of an unfinished line have been read, and
  whether the last character was a \<open>\r\<close> (a \<open>\n\<close> right after it ends no new line).
\<close>

datatype line_state = AtStart | InLine | AfterCR

fun count_lines :: "line_state \<Rightarrow> pystr \<Rightarrow> nat" where
  "count_lines st [] = (if st = InLine then 1 else 0)"
| "count_lines st (c # cs) =
     (if c = 10 then (if st = AfterCR then count_lines AtStart cs else 1 + count_lines AtStart cs)
      else if c = 13 then 1 + count_lines AfterCR cs
      else count_lines InLine cs)"

text \<open>
  Lines 73 to 85. The file system maps a path to the content of the file there; \<open>files\<close> is
  the remote file store, from a file identifier to the content that \<open>client.files.content\<close>
  returns. \<open>save_file\<close> writes that content to the path. A file identifier that is \<open>None\<close>
  or empty is false in the \<open>if\<close>. The line count is read back from the saved file. 8230 is
  the ellipsis and 8594 the arrow of the messages.
\<close>

type_synonym fs = "pystr \<Rightarrow> pystr option"

definition save_file :: "(pystr \<Rightarrow> pystr) \<Rightarrow> pystr \<Rightarrow> pystr \<Rightarrow> fs \<Rightarrow> fs" where
  "save_file files file_id path fs = fs(path \<mapsto> files file_id)"

definition download_results ::
  "(pystr \<Rightarrow> pystr) \<Rightarrow> pystr \<Rightarrow> pystr \<Rightarrow> pystr \<Rightarrow> batch \<Rightarrow> fs \<times> event list \<Rightarrow> fs \<times> event list" where
  "download_results files batch_id out_path err_path b s =
     (let s = (case output_file_id b of
                 None \<Rightarrow> s
               | Some file_id \<Rightarrow>
                   if file_id = [] then s
                   else
                     (let fs = save_file files file_id out_path (fst s);
                          n_lines = (case fs out_path of
                                       None \<Rightarrow> 0 | Some text \<Rightarrow> count_lines AtStart text)
                      in (fs, snd s @
                           [Print (str ''Downloading output to '' @ out_path @ str '' '' @ [8230]),
                            Save file_id out_path,
                            Print (str ''Saved '' @ str_int (int n_lines) @ str '' lines '' @
                                   [8594] @ str '' '' @ out_path)])));
          s = (case error_file_id b of
                 None \<Rightarrow> s
               | Some file_id \<Rightarrow>
                   if file_id = [] then s
                   else
                     (save_file files file_id err_path (fst s),
                      snd s @
                        [Print (str ''Downloading errors to '' @ err_path @ str '' '' @ [8230]),
                         Save file_id err_path,
                         Print (str ''Saved errors '' @ [8594] @ str '' '' @ err_path)]))
      in (fst s, snd s @
            [Print (str ''Batch '' @ batch_id @ str '' finished with status: '' @ status_of b)]))"

text \<open>
  \<open>main\<close> from line 60 on: the loop, then the download with the snapshot the loop ended
  with. An exception of the loop ends the program before any download.
\<close>

definition poll_and_download ::
  "(nat \<Rightarrow> batch) \<Rightarrow> (pystr \<Rightarrow> pystr) \<Rightarrow> int \<Rightarrow> pystr \<Rightarrow> pystr \<Rightarrow> pystr \<Rightarrow> fs \<Rightarrow>
     (fs \<times> event list \<times> error option) option" where
  "poll_and_download remote files poll batch_id out_path err_path fs =
     (case poll_loop remote poll 0 [] of
        None \<Rightarrow> None
      | Some (evs, Inl e) \<Rightarrow> Some (fs, evs, Some e)
      | Some (evs, Inr b) \<Rightarrow>
          (let s = download_results files batch_id out_path err_path b (fs, evs)
           in Some (fst s, snd s, None)))"

text \<open>
  For the statements about the loop: the events of the full iterations \<open>n\<close> to \<open>k - 1\<close>
  (query, report, sleep), the sleeps of a trace, the number of its queries, and the stub
  service of the specification's test, which ticks through a canned list of statuses and
  stays at the last one.
\<close>

definition iterations :: "(nat \<Rightarrow> batch) \<Rightarrow> int \<Rightarrow> nat \<Rightarrow> nat \<Rightarrow> event list" where
  "iterations remote poll n k =
     concat (map (\<lambda>j. [Query j, Print (progress_line (remote j)), Sleep poll]) [n..<k])"

fun sleeps :: "event list \<Rightarrow> int list" where
  "sleeps [] = []"
| "sleeps (Sleep d # evs) = d # sleeps evs"
| "sleeps (_ # evs) = sleeps evs"

fun queries :: "event list \<Rightarrow> nat" where
  "queries [] = 0"
| "queries (Query n # evs) = 1 + queries evs"
| "queries (_ # evs) = queries evs"

definition stub_service :: "pystr list \<Rightarrow> nat \<Rightarrow> batch" where
  "stub_service statuses n =
     \<lparr>status = Some (if n < length statuses then statuses ! n else last statuses),
      counts = None, output_file_id = None, error_file_id = None\<rparr>"

section \<open>generate\_jsonl.py: writing the artifact\<close>

text \<open>
  \<open>json.dumps(obj, ensure_ascii=False)\<close> with the default separators. In a string the
  quote (34) and the backslash (92) are escaped, the control characters below 32 are
  written as \<open>\b\<close>, \<open>\t\<close>, \<open>\n\<close>, \<open>\f\<close>, \<open>\r\<close> or as \<open>\u00XX\<close> with lowercase hexadecimal
  digits, and every other character is written as it is. An integer is written in decimal,
  a float as its \<open>repr\<close>, the items of a list and of a dictionary are joined with a comma
  and a space, a key and its value with a colon and a space.
\<close>

definition hex_digit :: "nat \<Rightarrow> nat" where
  "hex_digit d = (if d < 10 then 48 + d else 87 + d)"

definition escape_char :: "nat \<Rightarrow> pystr" where
  "escape_char c =
     (if c = 34 then [92, 34]
      else if c = 92 then [92, 92]
      else if c = 10 then [92, 110]
      else if c = 13 then [92, 114]
      else if c = 9 then [92, 116]
      else if c = 8 then [92, 98]
      else if c = 12 then [92, 102]
      else if c < 32 then [92, 117, 48, 48, hex_digit (c div 16), hex_digit (c mod 16)]
      else [c])"

definition dumps_str :: "pystr \<Rightarrow> pystr" where
  "dumps_str s = 34 # concat (map escape_char s) @ [34]"

fun join :: "pystr \<Rightarrow> pystr list \<Rightarrow> pystr" where
  "join sep [] = []"
| "join sep [x] = x"
| "join sep (x # y # ys) = x @ sep @ join sep (y # ys)"

fun dumps :: "json \<Rightarrow> pystr" where
  "dumps JNull = str ''null''"
| "dumps (JBool b) = (if b then str ''true'' else str ''false'')"
| "dumps (JInt i) = str_int i"
| "dumps (JFloat r) = r"
| "dumps (JStr s) = dumps_str s"
| "dumps (JArr xs) = str ''['' @ join (str '', '') (map dumps xs) @ str '']''"
| "dumps (JObj kvs) =
     str ''{'' @ join (str '', '') (map (\<lambda>kv. dumps_str (fst kv) @ str '': '' @ dumps (snd kv)) kvs) @
     str ''}''"

text \<open>
  \<open>f.write(s)\<close> on a file opened with \<open>encoding="utf-8"\<close> encodes \<open>s\<close> first, and raises
  \<open>UnicodeEncodeError\<close> when \<open>s\<close> holds a surrogate code point (55296 to 57343), which a
  command-line argument that is not valid UTF-8 brings in. Nothing of \<open>s\<close> is written then.
  Otherwise the text is appended to the file (as on a POSIX system, where a newline is
  written as it is).
\<close>

definition utf8_encodable :: "pystr \<Rightarrow> bool" where
  "utf8_encodable s = list_all (\<lambda>c. \<not> (55296 \<le> c \<and> c \<le> 57343)) s"

definition f_write :: "pystr \<Rightarrow> pystr \<Rightarrow> fs \<Rightarrow> fs" where
  "f_write path data fs = fs(path \<mapsto> (case fs path of None \<Rightarrow> [] | Some old \<Rightarrow> old) @ data)"

text \<open>
  \<^verbatim>\<open>
  with out_path.open("w", encoding="utf-8") as f:
      for i, url in enumerate(urls, start=1):
          line = make_request_line(i, url, args.model, args.temperature)
          f.write(json.dumps(line, ensure_ascii=False) + "\n")
  \<close>
  \<open>write_requests\<close> is the loop, on the file system; an exception leaves the loop with the
  file as it is at that moment (the \<open>with\<close> statement closes and so flushes it).
\<close>

fun write_requests ::
  "int \<Rightarrow> pystr list \<Rightarrow> pystr \<Rightarrow> pystr \<Rightarrow> pystr \<Rightarrow> fs \<Rightarrow> fs \<times> error option" where
  "write_requests i [] model temperature out_path fs = (fs, None)"
| "write_requests i (url # urls) model temperature out_path fs =
     (let line = make_request_line i url model temperature;
          data = dumps line @ [10]
      in if utf8_encodable data
         then write_requests (i + 1) urls model temperature out_path (f_write out_path data fs)
         else (fs, Some UnicodeEncodeError))"

text \<open>
  \<open>main\<close> of generate\_jsonl.py, lines 108 to 118, on the lines of the input file:
  no URL ends the program with \<open>SystemExit\<close> before the output is touched; otherwise
  opening the output path with mode \<open>w\<close> creates or empties the file there, and the loop
  writes to it. The last \<open>print\<close> is left out.
\<close>

definition main :: "pystr list \<Rightarrow> pystr \<Rightarrow> pystr \<Rightarrow> pystr \<Rightarrow> fs \<Rightarrow> fs \<times> error option" where
  "main lns out_path model temperature fs =
     (let urls = read_urls lns
      in if urls = [] then (fs, Some (SystemExit (str ''No URLs found.'')))
         else write_requests 1 urls model temperature out_path (fs(out_path \<mapsto> [])))"

text \<open>
  The content of an artifact that holds the given requests, one per line, and the number
  of per-item records in a saved artifact (its lines; a path with no file has none).
\<close>

definition artifact :: "json list \<Rightarrow> pystr" where
  "artifact reqs = concat (map (\<lambda>r. dumps r @ [10]) reqs)"

definition saved_records :: "fs \<Rightarrow> pystr \<Rightarrow> nat" where
  "saved_records fs path = (case fs path of None \<Rightarrow> 0 | Some text \<Rightarrow> count_lines AtStart text)"

section \<open>Reading the artifact back\<close>

text \<open>
  The artifact is read as JSON Lines: the text is cut at every newline (10), and a last
  piece that is empty, after the final newline, is no line.
\<close>

definition jsonl_lines :: "pystr \<Rightarrow> pystr list" where
  "jsonl_lines text =
     (let pieces = str_split 10 text in if last pieces = [] then butlast pieces else pieces)"

text \<open>
  A line is parsed by a JSON reader that follows \<open>json.loads\<close>: whitespace (space, tab,
  newline, carriage return) is skipped around values and separators; a string ends at the
  first unescaped quote, knows the escapes \<open>\"\<close>, \<open>\\\<close>, \<open>\/\<close>, \<open>\b\<close>, \<open>\f\<close>, \<open>\n\<close>, \<open>\r\<close>, \<open>\t\<close>
  and \<open>\uXXXX\<close>, and rejects a raw control character; a number is an integer when it
  has neither fraction nor exponent, and a float (kept as its text) otherwise; \<open>NaN\<close>,
  \<open>Infinity\<close> and \<open>-Infinity\<close> are floats. The members of an object are kept in order.
  (\<open>json.loads\<close> also joins two \<open>\u\<close> escapes that form a surrogate pair, which
  \<open>json.dumps\<close> with \<open>ensure_ascii=False\<close> never writes; this reader does not.)
  The fuel bounds the number of nested calls; \<open>loads\<close> gives as much as the text is long.
\<close>

definition is_ws :: "nat \<Rightarrow> bool" where
  "is_ws c \<longleftrightarrow> c = 32 \<or> c = 9 \<or> c = 10 \<or> c = 13"

definition skip_ws :: "pystr \<Rightarrow> pystr" where
  "skip_ws s = dropWhile is_ws s"

definition starts_with :: "pystr \<Rightarrow> pystr \<Rightarrow> bool" where
  "starts_with p s \<longleftrightarrow> take (length p) s = p"

definition hex_val :: "nat \<Rightarrow> nat option" where
  "hex_val c =
     (if 48 \<le> c \<and> c \<le> 57 then Some (c - 48)
      else if 97 \<le> c \<and> c \<le> 102 then Some (c - 87)
      else if 65 \<le> c \<and> c \<le> 70 then Some (c - 55)
      else None)"

definition hex4 :: "pystr \<Rightarrow> nat option" where
  "hex4 hs =
     (case map hex_val hs of
        [Some a, Some b, Some c, Some d] \<Rightarrow> Some (4096 * a + 256 * b + 16 * c + d)
      | _ \<Rightarrow> None)"

definition unescape :: "nat \<Rightarrow> nat option" where
  "unescape e =
     (if e = 34 then Some 34
      else if e = 92 then Some 92
      else if e = 47 then Some 47
      else if e = 98 then Some 8
      else if e = 102 then Some 12
      else if e = 110 then Some 10
      else if e = 114 then Some 13
      else if e = 116 then Some 9
      else None)"

text \<open>The characters of a string after its opening quote, and what follows the closing quote.\<close>

function parse_chars :: "pystr \<Rightarrow> (pystr \<times> pystr) option" where
  "parse_chars [] = None"
| "parse_chars (c # cs) =
     (if c = 34 then Some ([], cs)
      else if c = 92 then
        (case cs of
           [] \<Rightarrow> None
         | e # es \<Rightarrow>
             if e = 117 then
               (case hex4 (take 4 es) of
                  None \<Rightarrow> None
                | Some u \<Rightarrow> map_option (\<lambda>p. (u # fst p, snd p)) (parse_chars (drop 4 es)))
             else
               (case unescape e of
                  None \<Rightarrow> None
                | Some d \<Rightarrow> map_option (\<lambda>p. (d # fst p, snd p)) (parse_chars es)))
      else if c < 32 then None
      else map_option (\<lambda>p. (c # fst p, snd p)) (parse_chars cs))"
  by pat_completeness auto
termination
  by (relation "measure length") auto

text \<open>
  Numbers: the token is the longest run of digits, signs, dots and exponent letters. It is
  an integer literal when it is an optional minus and digits with no leading zero, and a
  float literal when it has an integer part, then a fraction or an exponent or both.
\<close>

definition numchar :: "nat \<Rightarrow> bool" where
  "numchar c \<longleftrightarrow> digit c \<or> c = 45 \<or> c = 43 \<or> c = 46 \<or> c = 101 \<or> c = 69"

definition unsigned :: "pystr \<Rightarrow> pystr" where
  "unsigned t = (if t \<noteq> [] \<and> hd t = 45 then tl t else t)"

definition int_part_ok :: "pystr \<Rightarrow> bool" where
  "int_part_ok ds \<longleftrightarrow> ds \<noteq> [] \<and> list_all digit ds \<and> (ds = [48] \<or> hd ds \<noteq> 48)"

definition int_literal :: "pystr \<Rightarrow> bool" where
  "int_literal t \<longleftrightarrow> int_part_ok (unsigned t)"

definition int_value :: "pystr \<Rightarrow> int" where
  "int_value t = (if t \<noteq> [] \<and> hd t = 45 then - int (undec (tl t)) else int (undec t))"

definition float_literal :: "pystr \<Rightarrow> bool" where
  "float_literal t =
     (let r1 = dropWhile digit (unsigned t);
          has_frac = (r1 \<noteq> [] \<and> hd r1 = 46);
          r2 = (if has_frac then dropWhile digit (tl r1) else r1);
          has_exp = (r2 \<noteq> [] \<and> (hd r2 = 101 \<or> hd r2 = 69));
          r3 = (if has_exp then tl r2 else r2);
          ds = (if has_exp \<and> r3 \<noteq> [] \<and> (hd r3 = 43 \<or> hd r3 = 45) then tl r3 else r3)
      in int_part_ok (takeWhile digit (unsigned t)) \<and> (has_frac \<or> has_exp) \<and>
         (if has_frac then takeWhile digit (tl r1) \<noteq> [] else True) \<and>
         (if has_exp then ds \<noteq> [] \<and> list_all digit ds else r2 = []))"

definition parse_number :: "pystr \<Rightarrow> (json \<times> pystr) option" where
  "parse_number s =
     (let tok = takeWhile numchar s; rest = dropWhile numchar s
      in if int_literal tok then Some (JInt (int_value tok), rest)
         else if float_literal tok then Some (JFloat tok, rest)
         else None)"

definition parse_constant :: "pystr \<Rightarrow> (json \<times> pystr) option" where
  "parse_constant s =
     (if starts_with (str ''null'') s then Some (JNull, drop 4 s)
      else if starts_with (str ''true'') s then Some (JBool True, drop 4 s)
      else if starts_with (str ''false'') s then Some (JBool False, drop 5 s)
      else if starts_with (str ''NaN'') s then Some (JFloat (str ''NaN''), drop 3 s)
      else if starts_with (str ''Infinity'') s then Some (JFloat (str ''Infinity''), drop 8 s)
      else if starts_with (str ''-Infinity'') s then Some (JFloat (str ''-Infinity''), drop 9 s)
      else parse_number s)"

fun parse_value :: "nat \<Rightarrow> pystr \<Rightarrow> (json \<times> pystr) option"
  and parse_items :: "nat \<Rightarrow> pystr \<Rightarrow> (json list \<times> pystr) option"
  and parse_members :: "nat \<Rightarrow> pystr \<Rightarrow> ((pystr \<times> json) list \<times> pystr) option" where
  "parse_value 0 s = None"
| "parse_value (Suc n) s =
     (case s of
        [] \<Rightarrow> None
      | c # cs \<Rightarrow>
          if c = 34 then map_option (\<lambda>p. (JStr (fst p), snd p)) (parse_chars cs)
          else if c = 91 then
            (case skip_ws cs of
               [] \<Rightarrow> None
             | d # r \<Rightarrow>
                 if d = 93 then Some (JArr [], r)
                 else map_option (\<lambda>p. (JArr (fst p), snd p)) (parse_items n (d # r)))
          else if c = 123 then
            (case skip_ws cs of
               [] \<Rightarrow> None
             | d # r \<Rightarrow>
                 if d = 125 then Some (JObj [], r)
                 else map_option (\<lambda>p. (JObj (fst p), snd p)) (parse_members n (d # r)))
          else parse_constant s)"
| "parse_items 0 s = None"
| "parse_items (Suc n) s =
     (case parse_value n s of
        None \<Rightarrow> None
      | Some (x, r) \<Rightarrow>
          (case skip_ws r of
             [] \<Rightarrow> None
           | d # r' \<Rightarrow>
               if d = 93 then Some ([x], r')
               else if d = 44 then
                 map_option (\<lambda>p. (x # fst p, snd p)) (parse_items n (skip_ws r'))
               else None))"
| "parse_members 0 s = None"
| "parse_members (Suc n) s =
     (case s of
        [] \<Rightarrow> None
      | q # cs \<Rightarrow>
          if q \<noteq> 34 then None
          else
            (case parse_chars cs of
               None \<Rightarrow> None
             | Some (k, r) \<Rightarrow>
                 (case skip_ws r of
                    [] \<Rightarrow> None
                  | d # r1 \<Rightarrow>
                      if d \<noteq> 58 then None
                      else
                        (case parse_value n (skip_ws r1) of
                           None \<Rightarrow> None
                         | Some (v, r2) \<Rightarrow>
                             (case skip_ws r2 of
                                [] \<Rightarrow> None
                              | d' # r3 \<Rightarrow>
                                  if d' = 125 then Some ([(k, v)], r3)
                                  else if d' = 44 then
                                    map_option (\<lambda>p. ((k, v) # fst p, snd p))
                                      (parse_members n (skip_ws r3))
                                  else None)))))"

declare parse_value.simps [simp del]

definition loads :: "pystr \<Rightarrow> json option" where
  "loads s =
     (case parse_value (length s) (skip_ws s) of
        None \<Rightarrow> None
      | Some (v, r) \<Rightarrow> if skip_ws r = [] then Some v else None)"

text \<open>
  The texts that \<open>float.__repr__\<close> and \<open>json.dumps\<close> give for a float: a float literal, or
  one of the three names; and the values all of whose floats are such.
\<close>

definition float_repr :: "pystr \<Rightarrow> bool" where
  "float_repr r \<longleftrightarrow>
     r = str ''NaN'' \<or> r = str ''Infinity'' \<or> r = str ''-Infinity'' \<or>
     (float_literal r \<and> list_all numchar r)"

fun wf_json :: "json \<Rightarrow> bool" where
  "wf_json (JFloat r) = float_repr r"
| "wf_json (JArr xs) = list_all wf_json xs"
| "wf_json (JObj kvs) = list_all (\<lambda>kv. wf_json (snd kv)) kvs"
| "wf_json _ = True"

text \<open>
  For the proofs about the reader: a text that may follow a number (it is empty or does not
  go on with a number character), a text that starts like a number, the characters a JSON
  value can start with, and the text of one member of an object.
\<close>

definition delim :: "pystr \<Rightarrow> bool" where
  "delim rest \<longleftrightarrow> rest = [] \<or> \<not> numchar (hd rest)"

definition number_start :: "pystr \<Rightarrow> bool" where
  "number_start s \<longleftrightarrow> s \<noteq> [] \<and> (digit (hd s) \<or> hd s = 45 \<and> tl s \<noteq> [] \<and> digit (hd (tl s)))"

definition value_start :: "nat \<Rightarrow> bool" where
  "value_start c \<longleftrightarrow>
     c = 34 \<or> c = 91 \<or> c = 123 \<or> c = 110 \<or> c = 116 \<or> c = 102 \<or> c = 78 \<or> c = 73 \<or> c = 45 \<or>
     digit c"

definition member_text :: "pystr \<times> json \<Rightarrow> pystr" where
  "member_text kv = dumps_str (fst kv) @ str '': '' @ dumps (snd kv)"

section \<open>Properties of the string operations\<close>

lemma str_split_nonempty: "str_split sep s \<noteq> []"
  by (induction s) (auto split: list.splits)

lemma hd_str_split: "hd (str_split sep s) = takeWhile (\<lambda>c. c \<noteq> sep) s"
proof (induction s)
  case Nil
  then show ?case by simp
next
  case (Cons c cs)
  then show ?case
    by (cases "str_split sep cs") (auto simp: str_split_nonempty)
qed

lemma str_split_no_sep: "\<forall>x\<in>set s. x \<noteq> sep \<Longrightarrow> str_split sep s = [s]"
  by (induction s) auto

lemma str_split_with_sep: "\<exists>x\<in>set s. x = sep \<Longrightarrow> tl (str_split sep s) \<noteq> []"
proof (induction s)
  case Nil
  then show ?case by simp
next
  case (Cons c cs)
  then show ?case
    by (cases "str_split sep cs") (auto simp: str_split_nonempty split: list.splits)
qed

lemma last_str_split: "last (str_split sep s) = rev (takeWhile (\<lambda>c. c \<noteq> sep) (rev s))"
proof (induction s)
  case Nil
  then show ?case by simp
next
  case (Cons c cs)
  show ?case
  proof (cases "\<forall>x\<in>set cs. x \<noteq> sep")
    case True
    then have "takeWhile (\<lambda>c. c \<noteq> sep) (rev cs) = rev cs" by simp
    moreover from True have "str_split sep cs = [cs]" by (rule str_split_no_sep)
    ultimately show ?thesis using True by (auto simp: takeWhile_append)
  next
    case False
    then have *: "takeWhile (\<lambda>c. c \<noteq> sep) (rev cs @ [c]) = takeWhile (\<lambda>c. c \<noteq> sep) (rev cs)"
      by (auto simp: takeWhile_append)
    from False have "tl (str_split sep cs) \<noteq> []" by (intro str_split_with_sep) blast
    then obtain w w' ws where "str_split sep cs = w # w' # ws"
      by (cases "str_split sep cs"; cases "tl (str_split sep cs)") auto
    with Cons * show ?thesis by simp
  qed
qed

lemma in_class_sub: "in_class (if in_class c then c else of_char CHR ''_'')"
  by (simp add: in_class_def)

lemma image_stem: "take 60 (re_sub_class (str ''image'')) = str ''image''"
  by (simp add: re_sub_class_def str_def in_class_def)

lemma dec_digits: "list_all digit (dec n)"
proof (induction n rule: dec.induct)
  case (1 n)
  show ?case
  proof (cases "n < 10")
    case True
    then show ?thesis by (subst dec.simps) (simp add: digit_def)
  next
    case False
    with "1.IH" have "list_all digit (dec (n div 10))" by simp
    moreover have "digit (48 + n mod 10)" by (simp add: digit_def)
    ultimately show ?thesis using False by (subst dec.simps) simp
  qed
qed

lemma dec_nonempty: "dec n \<noteq> []"
  by (subst dec.simps) simp

lemma undec_dec: "undec (dec n) = n"
proof (induction n rule: dec.induct)
  case (1 n)
  show ?case
  proof (cases "n < 10")
    case True
    then show ?thesis by (subst dec.simps) (simp add: undec_def)
  next
    case False
    with "1.IH" have "undec (dec (n div 10)) = n div 10" by simp
    then have "undec (dec (n div 10) @ [48 + n mod 10]) = 10 * (n div 10) + n mod 10"
      by (simp add: undec_def)
    with False show ?thesis by (subst dec.simps) simp
  qed
qed

lemma undec_zfill: "undec (zfill w s) = undec s"
proof -
  have "foldl (\<lambda>a c. 10 * a + (c - 48)) 0 (replicate k 48) = (0::nat)" for k
    by (induction k) simp_all
  then show ?thesis by (simp add: undec_def zfill_def)
qed

lemma zfill_dec_digits: "list_all digit (zfill w (dec n))"
  using dec_digits [of n] by (auto simp: zfill_def list_all_iff digit_def)

lemma zfill_dec_inj: "zfill w (dec m) = zfill w (dec n) \<Longrightarrow> m = n"
  by (metis undec_dec undec_zfill)

lemma digits_before_dash:
  assumes "list_all digit a" and "list_all digit b" and "a @ 45 # s = b @ 45 # t"
  shows "a = b"
proof -
  have nd: "\<not> digit 45" by (simp add: digit_def)
  from assms(1) have "takeWhile digit (a @ 45 # s) = a"
    using nd by (simp add: takeWhile_tail list_all_iff)
  moreover from assms(2) have "takeWhile digit (b @ 45 # t) = b"
    using nd by (simp add: takeWhile_tail list_all_iff)
  ultimately show ?thesis using assms(3) by simp
qed

lemma fmt_05d_inj:
  assumes "fmt_05d i @ 45 # s = fmt_05d j @ 45 # t"
  shows "i = j"
proof -
  have hd_digit: "digit (hd (zfill w (dec n) @ r))" for w n r
  proof -
    have ne: "zfill w (dec n) \<noteq> []" by (simp add: zfill_def dec_nonempty)
    then have "hd (zfill w (dec n) @ r) \<in> set (zfill w (dec n))" by simp
    with zfill_dec_digits [of w n] show ?thesis by (simp add: list_all_iff)
  qed
  have nd: "\<not> digit 45" by (simp add: digit_def)
  consider (nn) "i < 0" "j < 0" | (pp) "0 \<le> i" "0 \<le> j" | (np) "i < 0" "0 \<le> j" | (pn) "0 \<le> i" "j < 0"
    by linarith
  then show ?thesis
  proof cases
    case nn
    with assms have "zfill 4 (dec (nat (- i))) @ 45 # s = zfill 4 (dec (nat (- j))) @ 45 # t"
      by (simp add: fmt_05d_def)
    then have "zfill 4 (dec (nat (- i))) = zfill 4 (dec (nat (- j)))"
      by (rule digits_before_dash [OF zfill_dec_digits zfill_dec_digits])
    then have "nat (- i) = nat (- j)" by (rule zfill_dec_inj)
    with nn show ?thesis by simp
  next
    case pp
    with assms have "zfill 5 (dec (nat i)) @ 45 # s = zfill 5 (dec (nat j)) @ 45 # t"
      by (simp add: fmt_05d_def)
    then have "zfill 5 (dec (nat i)) = zfill 5 (dec (nat j))"
      by (rule digits_before_dash [OF zfill_dec_digits zfill_dec_digits])
    then have "nat i = nat j" by (rule zfill_dec_inj)
    with pp show ?thesis by simp
  next
    case np
    with assms have "45 # zfill 4 (dec (nat (- i))) @ 45 # s = zfill 5 (dec (nat j)) @ 45 # t"
      by (simp add: fmt_05d_def)
    then have "hd (zfill 5 (dec (nat j)) @ 45 # t) = 45" by (metis list.sel(1))
    with hd_digit [of 5 "nat j" "45 # t"] nd show ?thesis by simp
  next
    case pn
    with assms have "zfill 5 (dec (nat i)) @ 45 # s = 45 # zfill 4 (dec (nat (- j))) @ 45 # t"
      by (simp add: fmt_05d_def)
    then have "hd (zfill 5 (dec (nat i)) @ 45 # s) = 45" by (metis list.sel(1))
    with hd_digit [of 5 "nat i" "45 # s"] nd show ?thesis by simp
  qed
qed

lemma custom_id_inj_idx: "custom_id i u = custom_id j v \<Longrightarrow> i = j"
  by (rule fmt_05d_inj [of i "safe_stem_from_url u" j "safe_stem_from_url v"])
     (simp add: custom_id_def str_def)

lemma request_custom_id_make:
  "request_custom_id (make_request_line idx url model temperature) = Some (custom_id idx url)"
  by (simp add: request_custom_id_def make_request_line_def)

lemma request_target_make:
  "request_target (make_request_line idx url model temperature) = Some (str_strip url)"
  by (simp add: request_target_def make_request_line_def str_def)

lemma length_requests: "length (requests i urls model temperature) = length urls"
  by (induction urls arbitrary: i) simp_all

lemma nth_requests:
  "k < length urls \<Longrightarrow>
   requests i urls model temperature ! k = make_request_line (i + int k) (urls ! k) model temperature"
proof (induction urls arbitrary: i k)
  case Nil
  then show ?case by simp
next
  case (Cons u us)
  show ?case
  proof (cases k)
    case 0
    then show ?thesis by simp
  next
    case (Suc k')
    with Cons.prems have "k' < length us" by simp
    then have "requests (i + 1) us model temperature ! k' =
               make_request_line (i + 1 + int k') (us ! k') model temperature"
      by (rule Cons.IH)
    with Suc show ?thesis by (simp add: add.assoc)
  qed
qed

lemma requests_ids:
  "map request_custom_id (requests i urls model temperature) =
   map (\<lambda>k. Some (custom_id (i + int k) (urls ! k))) [0..<length urls]"
  by (rule nth_equalityI) (simp_all add: length_requests nth_requests request_custom_id_make)

lemma distinct_request_ids: "distinct (map request_custom_id (requests i urls model temperature))"
proof -
  have "inj_on (\<lambda>k. Some (custom_id (i + int k) (urls ! k))) (set [0..<length urls])"
    by (rule inj_onI) (auto dest: custom_id_inj_idx)
  then show ?thesis
    unfolding requests_ids by (simp add: distinct_map)
qed

lemma replicate_numeral: "replicate (numeral k) x = x # replicate (pred_numeral k) x"
  by (simp add: numeral_eq_Suc)

lemmas eval_defs = custom_id_def spec_custom_id_def spec_slug_def sanitize_def trailing_segment_def
  strip_query_def safe_stem_from_url_def re_sub_class_def in_class_def str_strip_def isspace_def
  fmt_05d_def zfill_def dec.simps str_def replicate_numeral

lemma re_sub_class_sanitize: "re_sub_class s = sanitize s"
  by (simp add: re_sub_class_def sanitize_def)

lemma safe_stem_from_url_steps:
  "safe_stem_from_url url =
     take 60 (sanitize (let seg = trailing_segment (strip_query (str_strip url))
                        in if seg = [] then str ''image'' else seg))"
  by (simp add: safe_stem_from_url_def Let_def hd_str_split last_str_split
      re_sub_class_sanitize trailing_segment_def strip_query_def)

lemma list_all_re_sub_class: "list_all in_class (re_sub_class s)"
  by (induction s) (simp_all add: re_sub_class_def in_class_def)

lemma custom_id_a_png: "custom_id 1 (str ''http://x/a.png'') = str ''ui-00001-a.png''"
  by (simp add: eval_defs)

lemma custom_id_a_png_2: "custom_id 2 (str ''http://x/a.png'') = str ''ui-00002-a.png''"
  by (simp add: eval_defs)

section \<open>Claims about the request encoder\<close>

text \<open>
  Claim C9. For every input string, \<open>safe_stem_from_url\<close> returns a non-empty string of at
  most 60 characters, all of them in the class \<open>[A-Za-z0-9._-]\<close>; when the trailing path
  segment (after the query string is cut off) is empty, it returns the literal \<open>image\<close>.
\<close>
theorem safe_stem_from_url_shape:
  "safe_stem_from_url url \<noteq> [] \<and> length (safe_stem_from_url url) \<le> 60 \<and>
   list_all in_class (safe_stem_from_url url) \<and>
   (last (str_split (of_char CHR ''/'') (hd (str_split (of_char CHR ''?'') (str_strip url)))) = []
      \<longrightarrow> safe_stem_from_url url = str ''image'')"
proof (intro conjI impI)
  show "safe_stem_from_url url \<noteq> []"
    by (simp add: safe_stem_from_url_def Let_def re_sub_class_def str_def)
  show "length (safe_stem_from_url url) \<le> 60"
    by (simp add: safe_stem_from_url_def Let_def)
  have "set (take 60 (re_sub_class s)) \<subseteq> set (re_sub_class s)" for s
    by (rule set_take_subset)
  with list_all_re_sub_class show "list_all in_class (safe_stem_from_url url)"
    unfolding safe_stem_from_url_def Let_def list_all_iff by blast
next
  assume "last (str_split (of_char CHR ''/'') (hd (str_split (of_char CHR ''?'') (str_strip url)))) = []"
  then show "safe_stem_from_url url = str ''image''"
    by (simp add: safe_stem_from_url_def image_stem)
qed

theorem safe_stem_from_url_shape_witness:
  "last (str_split (of_char CHR ''/'') (hd (str_split (of_char CHR ''?'')
      (str_strip (str ''http://x/dir/?size=2''))))) = [] \<and>
   safe_stem_from_url (str ''http://x/dir/?size=2'') = str ''image''"
proof -
  have h: "last (str_split (of_char CHR ''/'') (hd (str_split (of_char CHR ''?'')
      (str_strip (str ''http://x/dir/?size=2''))))) = []"
    by (simp add: eval_defs)
  with safe_stem_from_url_shape [of "str ''http://x/dir/?size=2''"] show ?thesis by blast
qed

text \<open>
  Claim C2 says that the input \<open>["http://x/a.png", "http://x/a.png"]\<close> gives the identifiers
  \<open>ui-00001-a_png\<close> and \<open>ui-00002-a_png\<close>. The dot is in the character class and is kept:
  the identifiers are not the ones of the claim.
\<close>
theorem duplicate_targets_ids_counterexample:
  "map request_custom_id
     (requests 1 [str ''http://x/a.png'', str ''http://x/a.png''] (str ''gpt-4o'') (str ''0.2''))
   \<noteq> [Some (str ''ui-00001-a_png''), Some (str ''ui-00002-a_png'')]"
proof -
  have "str ''ui-00001-a.png'' \<noteq> str ''ui-00001-a_png''" by (simp add: str_def)
  then show ?thesis by (simp add: request_custom_id_make custom_id_a_png)
qed

text \<open>
  Claim C2, as the code has it. For the input \<open>["http://x/a.png", "http://x/a.png"]\<close> the loop
  builds exactly two requests, with the identifiers \<open>ui-00001-a.png\<close> and \<open>ui-00002-a.png\<close>:
  the duplicate target is accepted and the two identifiers differ by their index.
\<close>

theorem duplicate_targets_ids:
  "length (requests 1 [str ''http://x/a.png'', str ''http://x/a.png''] model temperature) = 2 \<and>
   map request_custom_id
     (requests 1 [str ''http://x/a.png'', str ''http://x/a.png''] model temperature)
   = [Some (str ''ui-00001-a.png''), Some (str ''ui-00002-a.png'')] \<and>
   str ''ui-00001-a.png'' \<noteq> str ''ui-00002-a.png''"
  by (simp add: request_custom_id_make custom_id_a_png custom_id_a_png_2) (simp add: str_def)

text \<open>
  Claim C5 says that the identifier is the padded index joined with the slug of the four
  steps (strip the query, take the trailing segment, replace, truncate). For the target
  \<open>http://x/\<close> the four steps give the empty slug, and the code gives \<open>image\<close>; for a
  target that ends with a space the four steps turn the space into an underscore, and the
  code removes it first.
\<close>
theorem custom_id_spec_steps_counterexample:
  "custom_id 1 (str ''http://x/'') = str ''ui-00001-image'' \<and>
   spec_custom_id 1 (str ''http://x/'') = str ''ui-00001-'' \<and>
   custom_id 1 (str ''http://x/'') \<noteq> spec_custom_id 1 (str ''http://x/'') \<and>
   custom_id 2 (str ''http://x/a.png '') = str ''ui-00002-a.png'' \<and>
   spec_custom_id 2 (str ''http://x/a.png '') = str ''ui-00002-a.png_'' \<and>
   custom_id 2 (str ''http://x/a.png '') \<noteq> spec_custom_id 2 (str ''http://x/a.png '')"
  by (simp add: eval_defs)

text \<open>
  Claim C5, as the code has it. For every index and target, the identifier is \<open>ui-\<close>, the
  index padded with zeros to at least five characters, a dash, and a slug. The slug is derived from the
  target by removing surrounding whitespace, cutting at the first \<open>?\<close>, taking what follows
  the last \<open>/\<close>, taking \<open>image\<close> instead when that is empty, replacing every character
  outside \<open>[A-Za-z0-9._-]\<close> with an underscore, and keeping the first 60 characters.
\<close>

theorem custom_id_steps:
  "custom_id idx url =
     str ''ui-'' @ fmt_05d idx @ str ''-'' @
     take 60 (sanitize (let seg = trailing_segment (strip_query (str_strip url))
                        in if seg = [] then str ''image'' else seg))"
  by (simp add: custom_id_def safe_stem_from_url_steps)

text \<open>
  Claim C8. The identifier of a request is a function of the index and the target alone:
  it is \<open>custom_id idx url\<close> whatever the model and the temperature are; the identifier at
  position \<open>k\<close> of a run is that of index \<open>k + 1\<close> and target \<open>urls ! k\<close>; and two runs over
  the same list give the same identifiers at every position.
\<close>
theorem custom_id_deterministic:
  "request_custom_id (make_request_line idx url model temperature) = Some (custom_id idx url) \<and>
   map request_custom_id (requests 1 urls model temperature) =
     map (\<lambda>k. Some (custom_id (1 + int k) (urls ! k))) [0..<length urls] \<and>
   map request_custom_id (requests 1 urls model temperature) =
     map request_custom_id (requests 1 urls model' temperature')"
  by (simp add: request_custom_id_make requests_ids)

text \<open>
  Claim C6. For every non-empty list of targets the loop builds exactly one request per
  item, every request has an identifier, and the identifiers are pairwise distinct, also
  for duplicate targets and colliding slugs: the index is part of the identifier and can be
  read back from it.
\<close>
theorem requests_one_per_item_distinct_ids:
  "urls \<noteq> [] \<Longrightarrow>
   length (requests 1 urls model temperature) = length urls \<and>
   distinct (map request_custom_id (requests 1 urls model temperature)) \<and>
   None \<notin> set (map request_custom_id (requests 1 urls model temperature))"
proof (intro conjI)
  show "length (requests 1 urls model temperature) = length urls"
    by (rule length_requests)
  show "distinct (map request_custom_id (requests 1 urls model temperature))"
    by (rule distinct_request_ids)
  show "None \<notin> set (map request_custom_id (requests 1 urls model temperature))"
    by (auto simp: requests_ids)
qed

theorem requests_one_per_item_distinct_ids_witness:
  "[str ''http://x/a.png'', str ''http://x/a.png''] \<noteq> [] \<and>
   length (requests 1 [str ''http://x/a.png'', str ''http://x/a.png''] (str ''gpt-4o'') (str ''0.2'')) =
     length [str ''http://x/a.png'', str ''http://x/a.png''] \<and>
   distinct (map request_custom_id
     (requests 1 [str ''http://x/a.png'', str ''http://x/a.png''] (str ''gpt-4o'') (str ''0.2'')))"
proof -
  have ne: "[str ''http://x/a.png'', str ''http://x/a.png''] \<noteq> []" by simp
  from requests_one_per_item_distinct_ids [OF ne, of "str ''gpt-4o''" "str ''0.2''"] ne
  show ?thesis by blast
qed

section \<open>Properties of the polling loop and the download\<close>

lemma poll_loop_terminal:
  "status_of (remote n) \<in> TERMINAL \<Longrightarrow>
   poll_loop remote poll n evs =
     Some (evs @ [Query n, Print (progress_line (remote n))], Inr (remote n))"
  by (subst poll_loop.simps) (simp add: Let_def)

lemma poll_loop_negative:
  "status_of (remote n) \<notin> TERMINAL \<Longrightarrow> poll < 0 \<Longrightarrow>
   poll_loop remote poll n evs =
     Some (evs @ [Query n, Print (progress_line (remote n))], Inl ValueError)"
  by (subst poll_loop.simps) (simp add: Let_def)

lemma poll_loop_step:
  "status_of (remote n) \<notin> TERMINAL \<Longrightarrow> 0 \<le> poll \<Longrightarrow>
   poll_loop remote poll n evs =
     poll_loop remote poll (n + 1) (evs @ [Query n, Print (progress_line (remote n)), Sleep poll])"
  by (subst poll_loop.simps) (simp add: Let_def)

lemma iterations_empty: "iterations remote poll n n = []"
  by (simp add: iterations_def)

lemma iterations_first:
  "n < k \<Longrightarrow> iterations remote poll n k =
     [Query n, Print (progress_line (remote n)), Sleep poll] @ iterations remote poll (n + 1) k"
  by (simp add: iterations_def upt_conv_Cons)

lemma poll_loop_run:
  "0 \<le> poll \<Longrightarrow> \<forall>j. n \<le> j \<and> j < n + d \<longrightarrow> status_of (remote j) \<notin> TERMINAL \<Longrightarrow>
   poll_loop remote poll n evs =
     poll_loop remote poll (n + d) (evs @ iterations remote poll n (n + d))"
proof (induction d arbitrary: n evs)
  case 0
  then show ?case by (simp add: iterations_empty)
next
  case (Suc d)
  from Suc.prems have nt: "status_of (remote n) \<notin> TERMINAL" by simp
  from Suc.prems have rest: "\<forall>j. n + 1 \<le> j \<and> j < n + 1 + d \<longrightarrow> status_of (remote j) \<notin> TERMINAL"
    by simp
  have "poll_loop remote poll n evs =
        poll_loop remote poll (n + 1) (evs @ [Query n, Print (progress_line (remote n)), Sleep poll])"
    using nt Suc.prems(1) by (rule poll_loop_step)
  also have "\<dots> = poll_loop remote poll (n + 1 + d)
      ((evs @ [Query n, Print (progress_line (remote n)), Sleep poll]) @
       iterations remote poll (n + 1) (n + 1 + d))"
    using Suc.prems(1) rest by (rule Suc.IH)
  also have "(evs @ [Query n, Print (progress_line (remote n)), Sleep poll]) @
       iterations remote poll (n + 1) (n + 1 + d) = evs @ iterations remote poll n (n + Suc d)"
    using iterations_first [of n "n + Suc d" remote poll] by simp
  finally show ?case by simp
qed

lemma poll_loop_first_terminal:
  assumes "0 \<le> poll" and "status_of (remote k) \<in> TERMINAL"
    and "\<forall>j<k. status_of (remote j) \<notin> TERMINAL"
  shows "poll_loop remote poll 0 [] =
     Some (iterations remote poll 0 k @ [Query k, Print (progress_line (remote k))], Inr (remote k))"
proof -
  from assms(3) have "\<forall>j. 0 \<le> j \<and> j < 0 + k \<longrightarrow> status_of (remote j) \<notin> TERMINAL" by simp
  with assms(1) have "poll_loop remote poll 0 [] =
      poll_loop remote poll (0 + k) ([] @ iterations remote poll 0 (0 + k))"
    by (rule poll_loop_run)
  with assms(2) show ?thesis by (simp add: poll_loop_terminal)
qed

lemma poll_loop_returns:
  assumes ret: "poll_loop remote poll n evs = Some r"
  shows "(\<exists>k\<ge>n. status_of (remote k) \<in> TERMINAL) \<or> poll < 0"
proof (rule poll_loop.raw_induct
    [where P = "\<lambda>remote poll n evs r. (\<exists>k\<ge>n. status_of (remote k) \<in> TERMINAL) \<or> poll < 0",
     OF _ ret])
  fix f remote poll n evs r
  assume IH: "\<And>remote poll n evs r. f remote poll n evs = Some r \<Longrightarrow>
      (\<exists>k\<ge>n. status_of (remote k) \<in> TERMINAL) \<or> poll < 0"
    and eq: "(let b = remote n; evs = evs @ [Query n, Print (progress_line b)]
      in if status_of b \<in> TERMINAL then Some (evs, Inr b)
         else if poll < 0 then Some (evs, Inl ValueError)
         else f remote poll (n + 1) (evs @ [Sleep poll])) = Some r"
  show "(\<exists>k\<ge>n. status_of (remote k) \<in> TERMINAL) \<or> poll < 0"
  proof (cases "status_of (remote n) \<in> TERMINAL \<or> poll < 0")
    case True
    then show ?thesis by auto
  next
    case False
    with eq have "f remote poll (n + 1)
        ((evs @ [Query n, Print (progress_line (remote n))]) @ [Sleep poll]) = Some r"
      by (simp add: Let_def)
    then have "(\<exists>k\<ge>n + 1. status_of (remote k) \<in> TERMINAL) \<or> poll < 0" by (rule IH)
    then show ?thesis by (metis add_leD1)
  qed
qed

lemma poll_loop_diverges:
  assumes "0 \<le> poll" and "\<forall>k. status_of (remote k) \<notin> TERMINAL"
  shows "poll_loop remote poll n evs = None"
proof (cases "poll_loop remote poll n evs")
  case None
  then show ?thesis .
next
  case (Some r)
  then have "(\<exists>k\<ge>n. status_of (remote k) \<in> TERMINAL) \<or> poll < 0" by (rule poll_loop_returns)
  with assms show ?thesis by auto
qed

lemma first_terminal:
  fixes remote :: "nat \<Rightarrow> batch"
  assumes "status_of (remote k) \<in> TERMINAL"
  obtains m where "status_of (remote m) \<in> TERMINAL" and "\<forall>j<m. status_of (remote j) \<notin> TERMINAL"
proof -
  define m where "m = (LEAST i. status_of (remote i) \<in> TERMINAL)"
  have "status_of (remote m) \<in> TERMINAL"
    unfolding m_def using assms LeastI [of "\<lambda>i. status_of (remote i) \<in> TERMINAL" k] by simp
  moreover have "\<forall>j<m. status_of (remote j) \<notin> TERMINAL"
    unfolding m_def using not_less_Least by blast
  ultimately show ?thesis using that by blast
qed

lemma sleeps_append: "sleeps (xs @ ys) = sleeps xs @ sleeps ys"
  by (induction xs rule: sleeps.induct) simp_all

lemma queries_append: "queries (xs @ ys) = queries xs + queries ys"
  by (induction xs rule: queries.induct) simp_all

lemma sleeps_iterations: "sleeps (iterations remote poll n (n + d)) = replicate d poll"
proof (induction d arbitrary: n)
  case 0
  then show ?case by (simp add: iterations_empty)
next
  case (Suc d)
  have "iterations remote poll n (n + Suc d) =
     [Query n, Print (progress_line (remote n)), Sleep poll] @ iterations remote poll (n + 1) (n + 1 + d)"
    using iterations_first [of n "n + Suc d"] by simp
  with Suc.IH [of "n + 1"] show ?case by simp
qed

lemma queries_iterations: "queries (iterations remote poll n (n + d)) = d"
proof (induction d arbitrary: n)
  case 0
  then show ?case by (simp add: iterations_empty)
next
  case (Suc d)
  have "iterations remote poll n (n + Suc d) =
     [Query n, Print (progress_line (remote n)), Sleep poll] @ iterations remote poll (n + 1) (n + 1 + d)"
    using iterations_first [of n "n + Suc d"] by simp
  with Suc.IH [of "n + 1"] show ?case by simp
qed


lemma queries_iterations0: "queries (iterations remote poll 0 k) = k"
  using queries_iterations [of remote poll 0 k] by simp

lemma sleeps_iterations0: "sleeps (iterations remote poll 0 k) = replicate k poll"
  using sleeps_iterations [of remote poll 0 k] by simp

lemma poll_loop_shape:
  assumes "poll_loop remote poll 0 [] = Some (evs, r)"
  shows "\<exists>k. evs = iterations remote poll 0 k @ [Query k, Print (progress_line (remote k))] \<and>
             (\<forall>j<k. status_of (remote j) \<notin> TERMINAL) \<and>
             (r = Inr (remote k) \<and> status_of (remote k) \<in> TERMINAL \<or>
              r = Inl ValueError \<and> poll < 0 \<and> k = 0 \<and> status_of (remote 0) \<notin> TERMINAL)"
proof (cases "poll < 0 \<and> status_of (remote 0) \<notin> TERMINAL")
  case True
  then have "poll_loop remote poll 0 [] =
      Some ([] @ [Query 0, Print (progress_line (remote 0))], Inl ValueError)"
    by (intro poll_loop_negative) simp_all
  with assms True show ?thesis by (auto simp: iterations_empty)
next
  case False
  from assms poll_loop_returns [of remote poll 0 "[]" "(evs, r)"]
  have "(\<exists>k. status_of (remote k) \<in> TERMINAL) \<or> poll < 0" by auto
  with False obtain k0 where "status_of (remote k0) \<in> TERMINAL" by auto
  then obtain k where k: "status_of (remote k) \<in> TERMINAL"
    and before: "\<forall>j<k. status_of (remote j) \<notin> TERMINAL"
    by (rule first_terminal)
  have "poll_loop remote poll 0 [] =
     Some (iterations remote poll 0 k @ [Query k, Print (progress_line (remote k))], Inr (remote k))"
  proof (cases "0 \<le> poll")
    case True
    then show ?thesis using k before by (rule poll_loop_first_terminal)
  next
    case neg: False
    with False have "status_of (remote 0) \<in> TERMINAL" by simp
    with before have "k = 0" by (cases k) auto
    with k show ?thesis using poll_loop_terminal [of remote 0 poll "[]"] by (simp add: iterations_empty)
  qed
  with assms k before show ?thesis by auto
qed

lemma download_results_events:
  "snd (download_results files batch_id out_path err_path b (fs, evs)) =
   evs @ snd (download_results files batch_id out_path err_path b (fs, []))"
  by (simp add: download_results_def Let_def split: option.splits)

lemma download_results_fs:
  "fst (download_results files batch_id out_path err_path b (fs, evs)) =
   fst (download_results files batch_id out_path err_path b (fs, []))"
  by (simp add: download_results_def Let_def split: option.splits)

lemma sleeps_download_results:
  "sleeps (snd (download_results files batch_id out_path err_path b (fs, []))) = []"
  by (simp add: download_results_def Let_def split: option.splits)

lemma status_of_stub:
  "status_of (stub_service statuses n) = (if n < length statuses then statuses ! n else last statuses)"
  by (simp add: status_of_def stub_service_def)

lemma progress_line_stub:
  "progress_line (stub_service statuses n) = str ''['' @ status_of (stub_service statuses n) @ str '']''"
  by (simp add: progress_line_def stub_service_def)

lemma terminal_completed: "str ''completed'' \<in> TERMINAL"
  by (simp add: TERMINAL_def)

lemma nonterminal_submitted: "str ''submitted'' \<notin> TERMINAL"
  by (simp add: TERMINAL_def str_def)

lemma nonterminal_in_progress: "str ''in_progress'' \<notin> TERMINAL"
  by (simp add: TERMINAL_def str_def)

text \<open>
  Claim C4. With a valid sleep interval (\<open>0 \<le> poll\<close>, as the specification requires of the
  caller), the loop returns exactly when some query is answered with a status in
  \<open>{completed, failed, expired, cancelled}\<close>, and runs forever when none is. It stops at the
  first such answer, query number \<open>k\<close>: before it, every iteration queried, reported and
  slept for the fixed interval, so there are \<open>k + 1\<close> queries and \<open>k\<close> sleeps of \<open>poll\<close>
  seconds. For the status sequence submitted, in\_progress, completed it returns after three
  queries and two sleeps.
\<close>
theorem poll_loop_terminates_iff_terminal:
  "0 \<le> poll \<Longrightarrow>
   TERMINAL = {str ''completed'', str ''failed'', str ''expired'', str ''cancelled''} \<and>
   (poll_loop remote poll 0 [] = None \<longleftrightarrow> (\<forall>k. status_of (remote k) \<notin> TERMINAL)) \<and>
   (\<forall>k. status_of (remote k) \<in> TERMINAL \<and> (\<forall>j<k. status_of (remote j) \<notin> TERMINAL) \<longrightarrow>
      poll_loop remote poll 0 [] =
        Some (iterations remote poll 0 k @ [Query k, Print (progress_line (remote k))],
              Inr (remote k)) \<and>
      queries (iterations remote poll 0 k @ [Query k, Print (progress_line (remote k))]) = k + 1 \<and>
      sleeps (iterations remote poll 0 k @ [Query k, Print (progress_line (remote k))]) =
        replicate k poll) \<and>
   (status_of (remote 0) = str ''submitted'' \<and> status_of (remote 1) = str ''in_progress'' \<and>
    status_of (remote 2) = str ''completed'' \<longrightarrow>
      (\<exists>evs. poll_loop remote poll 0 [] = Some (evs, Inr (remote 2)) \<and> queries evs = 3 \<and>
             sleeps evs = [poll, poll]))"
proof (intro conjI allI impI)
  show "TERMINAL = {str ''completed'', str ''failed'', str ''expired'', str ''cancelled''}"
    by (rule TERMINAL_def)
next
  assume poll: "0 \<le> poll"
  show "poll_loop remote poll 0 [] = None \<longleftrightarrow> (\<forall>k. status_of (remote k) \<notin> TERMINAL)"
  proof
    assume none: "poll_loop remote poll 0 [] = None"
    show "\<forall>k. status_of (remote k) \<notin> TERMINAL"
    proof (rule ccontr)
      assume "\<not> (\<forall>k. status_of (remote k) \<notin> TERMINAL)"
      then obtain k0 where "status_of (remote k0) \<in> TERMINAL" by auto
      then obtain k where "status_of (remote k) \<in> TERMINAL"
        and "\<forall>j<k. status_of (remote j) \<notin> TERMINAL"
        by (rule first_terminal)
      with poll have "poll_loop remote poll 0 [] \<noteq> None"
        by (simp add: poll_loop_first_terminal)
      with none show False by simp
    qed
  next
    assume "\<forall>k. status_of (remote k) \<notin> TERMINAL"
    with poll show "poll_loop remote poll 0 [] = None" by (rule poll_loop_diverges)
  qed
next
  fix k
  assume poll: "0 \<le> poll"
    and k: "status_of (remote k) \<in> TERMINAL \<and> (\<forall>j<k. status_of (remote j) \<notin> TERMINAL)"
  then show "poll_loop remote poll 0 [] =
        Some (iterations remote poll 0 k @ [Query k, Print (progress_line (remote k))],
              Inr (remote k))"
    by (simp add: poll_loop_first_terminal)
  show "queries (iterations remote poll 0 k @ [Query k, Print (progress_line (remote k))]) = k + 1"
    by (simp add: queries_append queries_iterations0)
  show "sleeps (iterations remote poll 0 k @ [Query k, Print (progress_line (remote k))]) =
        replicate k poll"
    by (simp add: sleeps_append sleeps_iterations0)
next
  assume poll: "0 \<le> poll"
    and seq: "status_of (remote 0) = str ''submitted'' \<and> status_of (remote 1) = str ''in_progress'' \<and>
      status_of (remote 2) = str ''completed''"
  have before: "\<forall>j<2. status_of (remote j) \<notin> TERMINAL"
  proof (intro allI impI)
    fix j :: nat
    assume "j < 2"
    then have "j = 0 \<or> j = 1" by auto
    with seq show "status_of (remote j) \<notin> TERMINAL"
      using nonterminal_submitted nonterminal_in_progress by auto
  qed
  from seq have last: "status_of (remote 2) \<in> TERMINAL" by (simp add: terminal_completed)
  let ?evs = "iterations remote poll 0 2 @ [Query 2, Print (progress_line (remote 2))]"
  have "poll_loop remote poll 0 [] = Some (?evs, Inr (remote 2))"
    using poll last before by (rule poll_loop_first_terminal)
  moreover have "queries ?evs = 3"
    by (simp add: queries_append queries_iterations0)
  moreover have "sleeps ?evs = [poll, poll]"
    by (simp add: sleeps_append sleeps_iterations0 numeral_2_eq_2)
  ultimately show "\<exists>evs. poll_loop remote poll 0 [] = Some (evs, Inr (remote 2)) \<and> queries evs = 3 \<and>
             sleeps evs = [poll, poll]"
    by blast
qed

theorem poll_loop_terminates_iff_terminal_witness:
  "(0::int) \<le> 15 \<and>
   status_of (stub_service [str ''submitted'', str ''in_progress'', str ''completed''] 0) = str ''submitted'' \<and>
   status_of (stub_service [str ''submitted'', str ''in_progress'', str ''completed''] 1) = str ''in_progress'' \<and>
   status_of (stub_service [str ''submitted'', str ''in_progress'', str ''completed''] 2) = str ''completed'' \<and>
   (\<exists>evs. poll_loop (stub_service [str ''submitted'', str ''in_progress'', str ''completed'']) 15 0 [] =
      Some (evs, Inr (stub_service [str ''submitted'', str ''in_progress'', str ''completed''] 2)) \<and>
      queries evs = 3 \<and> sleeps evs = [15, 15]) \<and>
   poll_loop (stub_service [str ''submitted'', str ''in_progress'']) 15 0 [] = None"
proof -
  have p: "(0::int) \<le> 15" by simp
  have s: "status_of (stub_service [str ''submitted'', str ''in_progress'', str ''completed''] 0) = str ''submitted'' \<and>
   status_of (stub_service [str ''submitted'', str ''in_progress'', str ''completed''] 1) = str ''in_progress'' \<and>
   status_of (stub_service [str ''submitted'', str ''in_progress'', str ''completed''] 2) = str ''completed''"
    by (simp add: status_of_stub)
  have n: "\<forall>k. status_of (stub_service [str ''submitted'', str ''in_progress''] k) \<notin> TERMINAL"
    using nonterminal_submitted nonterminal_in_progress
    by (auto simp: status_of_stub less_Suc_eq numeral_2_eq_2)
  from poll_loop_terminates_iff_terminal [OF p, of "stub_service [str ''submitted'', str ''in_progress'', str ''completed'']"]
    poll_loop_terminates_iff_terminal [OF p, of "stub_service [str ''submitted'', str ''in_progress'']"]
    s n p
  show ?thesis by blast
qed

text \<open>
  Claim C10. A job whose status is terminal at the first query leaves the loop after that
  query and its progress line, and the program goes on to the download: the whole run has
  no sleep. In general, whenever the loop returns, its events are full iterations (query,
  report, sleep) for statuses that were not terminal, followed by one query and one report:
  every sleep comes after the query and the report of its iteration, and none comes after
  the query that ended the loop.
\<close>
theorem no_sleep_after_terminal:
  "(status_of (remote 0) \<in> TERMINAL \<longrightarrow>
      poll_loop remote poll 0 [] =
        Some ([Query 0, Print (progress_line (remote 0))], Inr (remote 0)) \<and>
      (\<exists>fs' evs. poll_and_download remote files poll batch_id out_path err_path fs =
           Some (fs', evs, None) \<and> sleeps evs = [] \<and>
           (fs', evs) = download_results files batch_id out_path err_path (remote 0)
                          (fs, [Query 0, Print (progress_line (remote 0))]))) \<and>
   (\<forall>evs r. poll_loop remote poll 0 [] = Some (evs, r) \<longrightarrow>
      (\<exists>k. evs = iterations remote poll 0 k @ [Query k, Print (progress_line (remote k))] \<and>
           (\<forall>j<k. status_of (remote j) \<notin> TERMINAL)))"
proof (intro conjI allI impI)
  assume t: "status_of (remote 0) \<in> TERMINAL"
  then show loop: "poll_loop remote poll 0 [] =
        Some ([Query 0, Print (progress_line (remote 0))], Inr (remote 0))"
    using poll_loop_terminal [of remote 0 poll "[]"] by simp
  let ?s = "download_results files batch_id out_path err_path (remote 0)
              (fs, [Query 0, Print (progress_line (remote 0))])"
  have "poll_and_download remote files poll batch_id out_path err_path fs =
      Some (fst ?s, snd ?s, None)"
    by (simp add: poll_and_download_def loop Let_def)
  moreover have "sleeps (snd ?s) = []"
    by (subst download_results_events) (simp add: sleeps_append sleeps_download_results)
  ultimately show "\<exists>fs' evs. poll_and_download remote files poll batch_id out_path err_path fs =
           Some (fs', evs, None) \<and> sleeps evs = [] \<and>
           (fs', evs) = download_results files batch_id out_path err_path (remote 0)
                          (fs, [Query 0, Print (progress_line (remote 0))])"
    by (metis prod.collapse)
next
  fix evs r
  assume "poll_loop remote poll 0 [] = Some (evs, r)"
  then show "\<exists>k. evs = iterations remote poll 0 k @ [Query k, Print (progress_line (remote k))] \<and>
           (\<forall>j<k. status_of (remote j) \<notin> TERMINAL)"
    using poll_loop_shape by blast
qed


theorem no_sleep_after_terminal_witness:
  "status_of (stub_service [str ''completed''] 0) \<in> TERMINAL \<and>
   poll_loop (stub_service [str ''completed'']) 15 0 [] =
     Some ([Query 0, Print (str ''[completed]'')], Inr (stub_service [str ''completed''] 0)) \<and>
   sleeps [Query 0, Print (str ''[completed]'')] = []"
proof -
  have t: "status_of (stub_service [str ''completed''] 0) \<in> TERMINAL"
    by (simp add: status_of_stub terminal_completed)
  have l: "progress_line (stub_service [str ''completed''] 0) = str ''[completed]''"
    by (simp add: progress_line_stub status_of_stub str_def)
  from no_sleep_after_terminal [of "stub_service [str ''completed'']" 15] t
  have "poll_loop (stub_service [str ''completed'']) 15 0 [] =
     Some ([Query 0, Print (progress_line (stub_service [str ''completed''] 0))],
           Inr (stub_service [str ''completed''] 0))"
    by blast
  with t l show ?thesis by simp
qed

lemma download_results_other_paths:
  "p \<noteq> out_path \<Longrightarrow> p \<noteq> err_path \<Longrightarrow>
   fst (download_results files batch_id out_path err_path b (fs, evs)) p = fs p"
  by (simp add: download_results_def Let_def save_file_def split: option.splits)

lemma download_results_error_file:
  "error_file_id b = Some e \<Longrightarrow> e \<noteq> [] \<Longrightarrow>
   fst (download_results files batch_id out_path err_path b (fs, evs)) err_path = Some (files e)"
  by (simp add: download_results_def Let_def save_file_def split: option.splits)

lemma download_results_output_file:
  "output_file_id b = Some f \<Longrightarrow> f \<noteq> [] \<Longrightarrow>
   out_path \<noteq> err_path \<or> error_file_id b = None \<or> error_file_id b = Some [] \<Longrightarrow>
   fst (download_results files batch_id out_path err_path b (fs, evs)) out_path = Some (files f)"
  by (auto simp: download_results_def Let_def save_file_def split: option.splits)

lemma download_results_output_report:
  "output_file_id b = Some f \<Longrightarrow> f \<noteq> [] \<Longrightarrow>
   Print (str ''Saved '' @ str_int (int (count_lines AtStart (files f))) @ str '' lines '' @
          [8594] @ str '' '' @ out_path)
     \<in> set (snd (download_results files batch_id out_path err_path b (fs, evs)))"
  by (simp add: download_results_def Let_def save_file_def split: option.splits)

lemma download_results_nothing:
  "output_file_id b = None \<or> output_file_id b = Some [] \<Longrightarrow>
   error_file_id b = None \<or> error_file_id b = Some [] \<Longrightarrow>
   fst (download_results files batch_id out_path err_path b (fs, evs)) = fs"
  by (auto simp: download_results_def Let_def save_file_def split: option.splits)

section \<open>Properties of the artifact writer\<close>

lemma utf8_encodable_append:
  "utf8_encodable (a @ b) \<longleftrightarrow> utf8_encodable a \<and> utf8_encodable b"
  by (simp add: utf8_encodable_def)

lemma escape_char_surrogate: "55296 \<le> c \<Longrightarrow> escape_char c = [c]"
  by (simp add: escape_char_def)

lemma dumps_str_surrogate:
  "c \<in> set s \<Longrightarrow> 55296 \<le> c \<Longrightarrow> c \<le> 57343 \<Longrightarrow> \<not> utf8_encodable (dumps_str s)"
proof -
  assume c: "c \<in> set s" "55296 \<le> c" "c \<le> 57343"
  then have "c \<in> set (concat (map escape_char s))"
    using escape_char_surrogate [of c] by (auto intro!: bexI [of _ c])
  with c show ?thesis by (auto simp: dumps_str_def utf8_encodable_def list_all_iff)
qed

lemma line_surrogate_model:
  assumes "c \<in> set model" "55296 \<le> c" "c \<le> 57343"
  shows "\<not> utf8_encodable (dumps (make_request_line i url model temperature) @ [10])"
proof -
  from assms have "\<not> utf8_encodable (dumps_str model)" by (rule dumps_str_surrogate)
  then show ?thesis by (simp add: make_request_line_def utf8_encodable_append)
qed

lemma write_requests_other_paths:
  "p \<noteq> out_path \<Longrightarrow> fst (write_requests i urls model temperature out_path fs) p = fs p"
  by (induction urls arbitrary: i fs) (simp_all add: Let_def f_write_def)

lemma write_requests_closed_form:
  "fs out_path = Some pre \<Longrightarrow>
   write_requests i urls model temperature out_path fs =
     (fs(out_path \<mapsto> pre @ artifact (takeWhile (\<lambda>r. utf8_encodable (dumps r @ [10]))
                                          (requests i urls model temperature))),
      if length (takeWhile (\<lambda>r. utf8_encodable (dumps r @ [10])) (requests i urls model temperature))
           = length urls
      then None else Some UnicodeEncodeError)"
proof (induction urls arbitrary: i fs pre)
  case Nil
  then show ?case by (simp add: artifact_def map_upd_triv)
next
  case (Cons url urls)
  let ?line = "make_request_line i url model temperature"
  let ?ok = "\<lambda>r. utf8_encodable (dumps r @ [10])"
  show ?case
  proof (cases "?ok ?line")
    case False
    then have tw: "takeWhile ?ok (requests i (url # urls) model temperature) = []" by simp
    from False have "write_requests i (url # urls) model temperature out_path fs =
        (fs, Some UnicodeEncodeError)"
      by (simp add: Let_def)
    moreover have "fs(out_path \<mapsto> pre @ artifact []) = fs"
      using Cons.prems by (simp add: artifact_def map_upd_triv)
    ultimately show ?thesis unfolding tw by simp
  next
    case True
    then have tw: "takeWhile ?ok (requests i (url # urls) model temperature) =
        ?line # takeWhile ?ok (requests (i + 1) urls model temperature)"
      by simp
    define fs1 where "fs1 = fs(out_path \<mapsto> pre @ dumps ?line @ [10])"
    have fw: "f_write out_path (dumps ?line @ [10]) fs = fs1"
      using Cons.prems by (simp add: f_write_def fs1_def)
    have "fs1 out_path = Some (pre @ dumps ?line @ [10])" by (simp add: fs1_def)
    then have ih: "write_requests (i + 1) urls model temperature out_path fs1 =
          (fs1(out_path \<mapsto> (pre @ dumps ?line @ [10]) @
                artifact (takeWhile ?ok (requests (i + 1) urls model temperature))),
           if length (takeWhile ?ok (requests (i + 1) urls model temperature)) = length urls
           then None else Some UnicodeEncodeError)"
      by (rule Cons.IH)
    have upd: "fs1(out_path \<mapsto> (pre @ dumps ?line @ [10]) @
                artifact (takeWhile ?ok (requests (i + 1) urls model temperature))) =
        fs(out_path \<mapsto> pre @
                artifact (?line # takeWhile ?ok (requests (i + 1) urls model temperature)))"
      by (rule ext) (simp add: fs1_def artifact_def)
    from True have "write_requests i (url # urls) model temperature out_path fs =
        write_requests (i + 1) urls model temperature out_path fs1"
      by (simp add: Let_def fw)
    also note ih
    finally have res: "write_requests i (url # urls) model temperature out_path fs =
        (fs(out_path \<mapsto> pre @
                artifact (?line # takeWhile ?ok (requests (i + 1) urls model temperature))),
         if length (takeWhile ?ok (requests (i + 1) urls model temperature)) = length urls
         then None else Some UnicodeEncodeError)"
      unfolding upd .
    have flag: "(length (?line # takeWhile ?ok (requests (i + 1) urls model temperature)) =
          length (url # urls)) =
        (length (takeWhile ?ok (requests (i + 1) urls model temperature)) = length urls)"
      by simp
    show ?thesis unfolding tw flag by (rule res)
  qed
qed

lemma main_closed_form:
  "read_urls lns \<noteq> [] \<Longrightarrow>
   main lns out_path model temperature fs =
     (fs(out_path \<mapsto> artifact (takeWhile (\<lambda>r. utf8_encodable (dumps r @ [10]))
                                    (requests 1 (read_urls lns) model temperature))),
      if length (takeWhile (\<lambda>r. utf8_encodable (dumps r @ [10]))
                   (requests 1 (read_urls lns) model temperature)) = length (read_urls lns)
      then None else Some UnicodeEncodeError)"
  using write_requests_closed_form [of "fs(out_path \<mapsto> [])" out_path "[]" 1 "read_urls lns" model temperature]
  by (simp add: main_def Let_def)

lemma read_urls_one: "read_urls [str ''http://x/a.png''] = [str ''http://x/a.png'']"
  by (simp add: read_urls_def str_strip_def isspace_def str_def)

text \<open>
  Claim C3 says that on an encoding error the final output path is unchanged. The program
  opens the final path itself for writing: with a model name that holds a lone surrogate
  (an argument that is not valid UTF-8), the first write raises \<open>UnicodeEncodeError\<close>, and
  the file that was at the output path is empty afterwards.
\<close>
theorem artifact_written_in_place_counterexample:
  "snd (main [str ''http://x/a.png''] (str ''out.jsonl'') [56575] (str ''0.2'')
         [str ''out.jsonl'' \<mapsto> str ''old''])
     = Some UnicodeEncodeError \<and>
   fst (main [str ''http://x/a.png''] (str ''out.jsonl'') [56575] (str ''0.2'')
         [str ''out.jsonl'' \<mapsto> str ''old'']) (str ''out.jsonl'')
     = Some [] \<and>
   [str ''out.jsonl'' \<mapsto> str ''old''] (str ''out.jsonl'') = Some (str ''old'') \<and>
   str ''old'' \<noteq> []"
proof -
  have "\<not> utf8_encodable (dumps (make_request_line 1 (str ''http://x/a.png'') [56575] (str ''0.2'')) @ [10])"
    by (rule line_surrogate_model [of 56575]) simp_all
  then show ?thesis
    by (simp add: main_closed_form read_urls_one artifact_def) (simp add: str_def)
qed

text \<open>
  Claim C3, as the code has it. For a non-empty list of URLs the artifact is written in
  place: the output path is emptied when it is opened, the lines are appended in order, and
  the first line that cannot be encoded in UTF-8 ends the build with \<open>UnicodeEncodeError\<close>,
  the output path holding exactly the lines before it; whatever the path held before is
  gone in either case. When every line can be encoded, there is no error and the path
  holds all the lines.
\<close>

theorem artifact_written_in_place:
  "read_urls lns \<noteq> [] \<Longrightarrow>
   main lns out_path model temperature fs =
     (fs(out_path \<mapsto> artifact (takeWhile (\<lambda>r. utf8_encodable (dumps r @ [10]))
                                    (requests 1 (read_urls lns) model temperature))),
      if length (takeWhile (\<lambda>r. utf8_encodable (dumps r @ [10]))
                   (requests 1 (read_urls lns) model temperature)) = length (read_urls lns)
      then None else Some UnicodeEncodeError)"
  by (rule main_closed_form)

theorem artifact_written_in_place_witness:
  "read_urls [str ''http://x/a.png''] \<noteq> [] \<and>
   main [str ''http://x/a.png''] (str ''out.jsonl'') [56575] (str ''0.2'') [str ''out.jsonl'' \<mapsto> str ''old'']
     = ([str ''out.jsonl'' \<mapsto> []], Some UnicodeEncodeError)"
proof -
  have ne: "read_urls [str ''http://x/a.png''] \<noteq> []" by (simp add: read_urls_one)
  have "\<not> utf8_encodable (dumps (make_request_line 1 (str ''http://x/a.png'') [56575] (str ''0.2'')) @ [10])"
    by (rule line_surrogate_model [of 56575]) simp_all
  with artifact_written_in_place [OF ne, of "str ''out.jsonl''" "[56575]" "str ''0.2''" "[str ''out.jsonl'' \<mapsto> str ''old'']"]
  show ?thesis by (simp add: read_urls_one artifact_def)
qed

lemma custom_id_b_png_2: "custom_id 2 (str ''http://x/b.png'') = str ''ui-00002-b.png''"
  by (simp add: eval_defs)

lemma one_record_line:
  "count_lines AtStart (dumps (JObj [(str ''custom_id'', JStr (str ''ui-00001-a.png''))]) @ [10]) = 1"
  by (simp add: dumps_str_def escape_char_def str_def)

lemma out_err_differ: "str ''out.jsonl'' \<noteq> str ''err.jsonl''"
  by (simp add: str_def)

text \<open>
  Claim C1 says that every original identifier gets exactly one outcome and that the size
  of the result equals the number of requests. The program saves the two remote artifacts
  and matches nothing against the requests: for two requests and an output artifact with
  one record, one record is saved, one line is reported, and nothing is said about the
  second identifier.
\<close>
theorem reconcile_missing_id_counterexample:
  "map request_custom_id
     (requests 1 [str ''http://x/a.png'', str ''http://x/b.png''] (str ''gpt-4o'') (str ''0.2'')) =
     [Some (str ''ui-00001-a.png''), Some (str ''ui-00002-b.png'')] \<and>
   status_of \<lparr>status = Some (str ''completed''), counts = None,
              output_file_id = Some (str ''file-out''), error_file_id = None\<rparr> \<in> TERMINAL \<and>
   download_results
     (\<lambda>file_id. dumps (JObj [(str ''custom_id'', JStr (str ''ui-00001-a.png''))]) @ [10])
     (str ''batch_1'') (str ''out.jsonl'') (str ''err.jsonl'')
     \<lparr>status = Some (str ''completed''), counts = None,
      output_file_id = Some (str ''file-out''), error_file_id = None\<rparr>
     (Map.empty, []) =
     ([str ''out.jsonl'' \<mapsto> dumps (JObj [(str ''custom_id'', JStr (str ''ui-00001-a.png''))]) @ [10]],
      [Print (str ''Downloading output to out.jsonl '' @ [8230]),
       Save (str ''file-out'') (str ''out.jsonl''),
       Print (str ''Saved 1 lines '' @ [8594] @ str '' out.jsonl''),
       Print (str ''Batch batch_1 finished with status: completed'')]) \<and>
   saved_records
     [str ''out.jsonl'' \<mapsto> dumps (JObj [(str ''custom_id'', JStr (str ''ui-00001-a.png''))]) @ [10]]
     (str ''out.jsonl'') +
   saved_records
     [str ''out.jsonl'' \<mapsto> dumps (JObj [(str ''custom_id'', JStr (str ''ui-00001-a.png''))]) @ [10]]
     (str ''err.jsonl'') = 1"
proof (intro conjI)
  show "map request_custom_id
     (requests 1 [str ''http://x/a.png'', str ''http://x/b.png''] (str ''gpt-4o'') (str ''0.2'')) =
     [Some (str ''ui-00001-a.png''), Some (str ''ui-00002-b.png'')]"
    by (simp add: request_custom_id_make custom_id_a_png custom_id_b_png_2)
  show "status_of \<lparr>status = Some (str ''completed''), counts = None,
              output_file_id = Some (str ''file-out''), error_file_id = None\<rparr> \<in> TERMINAL"
    by (simp add: status_of_def terminal_completed)
  have fid: "str ''file-out'' \<noteq> []" by (simp add: str_def)
  have one: "str_int 1 = str ''1''" by (simp add: str_int_def dec.simps str_def)
  show "download_results
     (\<lambda>file_id. dumps (JObj [(str ''custom_id'', JStr (str ''ui-00001-a.png''))]) @ [10])
     (str ''batch_1'') (str ''out.jsonl'') (str ''err.jsonl'')
     \<lparr>status = Some (str ''completed''), counts = None,
      output_file_id = Some (str ''file-out''), error_file_id = None\<rparr>
     (Map.empty, []) =
     ([str ''out.jsonl'' \<mapsto> dumps (JObj [(str ''custom_id'', JStr (str ''ui-00001-a.png''))]) @ [10]],
      [Print (str ''Downloading output to out.jsonl '' @ [8230]),
       Save (str ''file-out'') (str ''out.jsonl''),
       Print (str ''Saved 1 lines '' @ [8594] @ str '' out.jsonl''),
       Print (str ''Batch batch_1 finished with status: completed'')])"
  proof -
    define record_line where
      "record_line = dumps (JObj [(str ''custom_id'', JStr (str ''ui-00001-a.png''))]) @ [10]"
    have n: "count_lines AtStart record_line = 1"
      unfolding record_line_def by (rule one_record_line)
    show ?thesis
      unfolding record_line_def [symmetric] download_results_def Let_def save_file_def
      by (simp add: fid n one status_of_def) (simp add: str_def)
  qed
  show "saved_records
     [str ''out.jsonl'' \<mapsto> dumps (JObj [(str ''custom_id'', JStr (str ''ui-00001-a.png''))]) @ [10]]
     (str ''out.jsonl'') +
   saved_records
     [str ''out.jsonl'' \<mapsto> dumps (JObj [(str ''custom_id'', JStr (str ''ui-00001-a.png''))]) @ [10]]
     (str ''err.jsonl'') = 1"
  proof -
    define record_line where
      "record_line = dumps (JObj [(str ''custom_id'', JStr (str ''ui-00001-a.png''))]) @ [10]"
    have n: "count_lines AtStart record_line = 1"
      unfolding record_line_def by (rule one_record_line)
    show ?thesis
      unfolding record_line_def [symmetric] using out_err_differ
      by (simp add: saved_records_def n)
  qed
qed

text \<open>
  Claim C1, as the code has it. After the loop the program saves the output artifact of the
  job, when it has one, at the output path, and the error artifact, when it has one, at the
  error path, each as the service returns it; it reports the number of lines of the saved
  output; it changes no other path, and changes nothing when the job has neither artifact.
  (When both paths are the same file, the error artifact is written last.)
\<close>

theorem download_results_artifacts:
  "(\<forall>p. p \<noteq> out_path \<and> p \<noteq> err_path \<longrightarrow>
      fst (download_results files batch_id out_path err_path b (fs, evs)) p = fs p) \<and>
   (\<forall>e. error_file_id b = Some e \<and> e \<noteq> [] \<longrightarrow>
      fst (download_results files batch_id out_path err_path b (fs, evs)) err_path = Some (files e)) \<and>
   (\<forall>f. output_file_id b = Some f \<and> f \<noteq> [] \<longrightarrow>
      Print (str ''Saved '' @ str_int (int (count_lines AtStart (files f))) @ str '' lines '' @
             [8594] @ str '' '' @ out_path)
        \<in> set (snd (download_results files batch_id out_path err_path b (fs, evs))) \<and>
      (out_path \<noteq> err_path \<or> error_file_id b = None \<or> error_file_id b = Some [] \<longrightarrow>
         fst (download_results files batch_id out_path err_path b (fs, evs)) out_path =
           Some (files f))) \<and>
   ((output_file_id b = None \<or> output_file_id b = Some []) \<and>
    (error_file_id b = None \<or> error_file_id b = Some []) \<longrightarrow>
      fst (download_results files batch_id out_path err_path b (fs, evs)) = fs)"
proof (intro conjI allI impI)
  fix p
  assume "p \<noteq> out_path \<and> p \<noteq> err_path"
  then show "fst (download_results files batch_id out_path err_path b (fs, evs)) p = fs p"
    by (simp add: download_results_other_paths)
next
  fix e
  assume "error_file_id b = Some e \<and> e \<noteq> []"
  then show "fst (download_results files batch_id out_path err_path b (fs, evs)) err_path =
      Some (files e)"
    by (simp add: download_results_error_file)
next
  fix f
  assume f: "output_file_id b = Some f \<and> f \<noteq> []"
  then show "Print (str ''Saved '' @ str_int (int (count_lines AtStart (files f))) @ str '' lines '' @
             [8594] @ str '' '' @ out_path)
        \<in> set (snd (download_results files batch_id out_path err_path b (fs, evs)))"
    using download_results_output_report [of b f files out_path batch_id err_path fs evs] by simp
  assume "out_path \<noteq> err_path \<or> error_file_id b = None \<or> error_file_id b = Some []"
  with f show "fst (download_results files batch_id out_path err_path b (fs, evs)) out_path =
      Some (files f)"
    using download_results_output_file [of b f out_path err_path files batch_id fs evs] by blast
next
  assume "(output_file_id b = None \<or> output_file_id b = Some []) \<and>
    (error_file_id b = None \<or> error_file_id b = Some [])"
  then show "fst (download_results files batch_id out_path err_path b (fs, evs)) = fs"
    using download_results_nothing [of b files batch_id out_path err_path fs evs] by blast
qed

theorem download_results_artifacts_witness:
  "str ''file-out'' \<noteq> [] \<and> str ''out.jsonl'' \<noteq> str ''err.jsonl'' \<and>
   fst (download_results (\<lambda>file_id. str ''one line'' @ [10])
          (str ''batch_1'') (str ''out.jsonl'') (str ''err.jsonl'')
          \<lparr>status = Some (str ''completed''), counts = None,
           output_file_id = Some (str ''file-out''), error_file_id = None\<rparr>
          (Map.empty, [])) (str ''out.jsonl'') = Some (str ''one line'' @ [10]) \<and>
   fst (download_results (\<lambda>file_id. str ''one line'' @ [10])
          (str ''batch_1'') (str ''out.jsonl'') (str ''err.jsonl'')
          \<lparr>status = Some (str ''completed''), counts = None,
           output_file_id = Some (str ''file-out''), error_file_id = None\<rparr>
          (Map.empty, [])) (str ''input.jsonl'') = None"
proof -
  have a: "str ''file-out'' \<noteq> []" and b: "str ''out.jsonl'' \<noteq> str ''err.jsonl''"
    and c: "str ''input.jsonl'' \<noteq> str ''out.jsonl''" and d: "str ''input.jsonl'' \<noteq> str ''err.jsonl''"
    by (simp_all add: str_def)
  from download_results_artifacts [of "str ''out.jsonl''" "str ''err.jsonl''"
      "\<lambda>file_id. str ''one line'' @ [10]" "str ''batch_1''"
      "\<lparr>status = Some (str ''completed''), counts = None,
           output_file_id = Some (str ''file-out''), error_file_id = None\<rparr>" Map.empty "[]"]
    a b c d
  show ?thesis by simp
qed

section \<open>Reading the artifact back gives the requests\<close>

subsection \<open>Strings\<close>

lemma hex_val_hex_digit: "d < 16 \<Longrightarrow> hex_val (hex_digit d) = Some d"
  by (auto simp: hex_val_def hex_digit_def)

lemma hex4_escape:
  "c < 32 \<Longrightarrow> hex4 [48, 48, hex_digit (c div 16), hex_digit (c mod 16)] = Some c"
proof -
  assume c: "c < 32"
  then have "c div 16 < 16" by simp
  then have a: "hex_val (hex_digit (c div 16)) = Some (c div 16)" by (rule hex_val_hex_digit)
  have b: "hex_val (hex_digit (c mod 16)) = Some (c mod 16)" by (rule hex_val_hex_digit) simp
  have z: "hex_val 48 = Some 0" by (simp add: hex_val_def)
  show ?thesis by (simp add: hex4_def a b z)
qed

lemma parse_chars_escape:
  "parse_chars (escape_char c @ t) = map_option (\<lambda>p. (c # fst p, snd p)) (parse_chars t)"
proof -
  consider (named) "c = 34 \<or> c = 92 \<or> c = 10 \<or> c = 13 \<or> c = 9 \<or> c = 8 \<or> c = 12"
    | (ctrl) "c < 32" "\<not> (c = 34 \<or> c = 92 \<or> c = 10 \<or> c = 13 \<or> c = 9 \<or> c = 8 \<or> c = 12)"
    | (raw) "32 \<le> c" "c \<noteq> 34" "c \<noteq> 92"
    by linarith
  then show ?thesis
  proof cases
    case named
    then show ?thesis by (auto simp: escape_char_def unescape_def)
  next
    case ctrl
    then have "escape_char c = [92, 117, 48, 48, hex_digit (c div 16), hex_digit (c mod 16)]"
      by (simp add: escape_char_def)
    with ctrl(1) show ?thesis by (simp add: hex4_escape)
  next
    case raw
    then have "escape_char c = [c]" by (simp add: escape_char_def)
    with raw show ?thesis by simp
  qed
qed

lemma parse_chars_dumps:
  "parse_chars (concat (map escape_char s) @ 34 # rest) = Some (s, rest)"
  by (induction s) (simp_all add: parse_chars_escape)

subsection \<open>Numbers\<close>

lemma dec_no_leading_zero: "dec n = [48] \<or> hd (dec n) \<noteq> 48"
proof (induction n rule: dec.induct)
  case (1 n)
  show ?case
  proof (cases "n < 10")
    case True
    then show ?thesis by (subst (1 2) dec.simps) auto
  next
    case False
    then have "n div 10 \<noteq> 0" by simp
    then have "dec (n div 10) \<noteq> [48]"
      by (metis undec_dec undec_def foldl_Cons foldl_Nil mult_zero_right add_0 diff_self_eq_0)
    with "1.IH" False have "hd (dec (n div 10)) \<noteq> 48" by simp
    moreover have "dec n = dec (n div 10) @ [48 + n mod 10]" using False by (subst dec.simps) simp
    ultimately show ?thesis by (simp add: dec_nonempty)
  qed
qed

lemma int_part_ok_dec: "int_part_ok (dec n)"
  using dec_no_leading_zero [of n] by (simp add: int_part_ok_def dec_nonempty dec_digits)

lemma int_literal_str_int: "int_literal (str_int i)"
proof (cases "i < 0")
  case True
  then show ?thesis by (simp add: int_literal_def unsigned_def str_int_def int_part_ok_dec)
next
  case False
  have "hd (dec (nat i)) \<noteq> 45"
    using dec_digits [of "nat i"] dec_nonempty [of "nat i"]
    by (cases "dec (nat i)") (auto simp: digit_def)
  with False show ?thesis by (simp add: int_literal_def unsigned_def str_int_def int_part_ok_dec)
qed

lemma int_value_str_int: "int_value (str_int i) = i"
proof (cases "i < 0")
  case True
  then show ?thesis by (simp add: int_value_def str_int_def undec_dec)
next
  case False
  have "hd (dec (nat i)) \<noteq> 45"
    using dec_digits [of "nat i"] dec_nonempty [of "nat i"]
    by (cases "dec (nat i)") (auto simp: digit_def)
  with False show ?thesis by (simp add: int_value_def str_int_def undec_dec)
qed

lemma numchar_digit: "digit c \<Longrightarrow> numchar c"
  by (simp add: numchar_def)

lemma numchar_str_int: "list_all numchar (str_int i)"
  using dec_digits [of "nat i"] dec_digits [of "nat (- i)"]
  by (auto simp: str_int_def list_all_iff numchar_def)

lemma number_token:
  "list_all numchar t \<Longrightarrow> delim rest \<Longrightarrow>
   takeWhile numchar (t @ rest) = t \<and> dropWhile numchar (t @ rest) = rest"
  by (cases rest) (auto simp: delim_def list_all_iff takeWhile_append dropWhile_append)

lemma parse_constant_number: "number_start s \<Longrightarrow> parse_constant s = parse_number s"
proof -
  assume "number_start s"
  then obtain c s' where s: "s = c # s'"
    and c: "digit c \<or> c = 45 \<and> s' \<noteq> [] \<and> digit (hd s')"
    by (cases s) (auto simp: number_start_def)
  have inf: "\<not> starts_with (str ''-Infinity'') s"
  proof (cases s')
    case Nil
    then show ?thesis by (simp add: s starts_with_def str_def)
  next
    case (Cons d s'')
    with c show ?thesis by (auto simp: s starts_with_def str_def digit_def)
  qed
  from c have "c \<noteq> 110" "c \<noteq> 116" "c \<noteq> 102" "c \<noteq> 78" "c \<noteq> 73"
    by (auto simp: digit_def)
  then have "\<not> starts_with (str ''null'') s" "\<not> starts_with (str ''true'') s"
    "\<not> starts_with (str ''false'') s" "\<not> starts_with (str ''NaN'') s"
    "\<not> starts_with (str ''Infinity'') s"
    by (simp_all add: s starts_with_def str_def)
  with inf show ?thesis by (simp add: parse_constant_def)
qed

lemma parse_value_number:
  "number_start s \<Longrightarrow> parse_value (Suc n) s = parse_number s"
proof -
  assume ns: "number_start s"
  then obtain c s' where s: "s = c # s'" and "digit c \<or> c = 45"
    by (cases s) (auto simp: number_start_def)
  then have "c \<noteq> 34" "c \<noteq> 91" "c \<noteq> 123" by (auto simp: digit_def)
  then have "parse_value (Suc n) s = parse_constant s" by (simp add: s parse_value.simps)
  with ns show ?thesis by (simp add: parse_constant_number)
qed

lemma number_start_str_int: "number_start (str_int i @ rest)"
proof -
  have d: "dec n @ r \<noteq> [] \<and> digit (hd (dec n @ r))" for n r
    using dec_digits [of n] dec_nonempty [of n] by (cases "dec n") auto
  show ?thesis
  proof (cases "i < 0")
    case True
    with d [of "nat (- i)" rest] show ?thesis by (simp add: number_start_def str_int_def)
  next
    case False
    with d [of "nat i" rest] show ?thesis by (simp add: number_start_def str_int_def)
  qed
qed

lemma parse_value_int:
  "delim rest \<Longrightarrow> parse_value (Suc n) (str_int i @ rest) = Some (JInt i, rest)"
  using number_token [OF numchar_str_int, of rest i]
  by (simp add: parse_value_number number_start_str_int parse_number_def
      int_literal_str_int int_value_str_int)

subsection \<open>Floats and constants\<close>

lemma int_part_ok_start: "int_part_ok (takeWhile digit t) \<Longrightarrow> t \<noteq> [] \<and> digit (hd t)"
  by (cases t) (auto simp: int_part_ok_def split: if_splits)

lemma float_literal_start: "float_literal r \<Longrightarrow> number_start (r @ rest)"
proof -
  assume "float_literal r"
  then have "int_part_ok (takeWhile digit (unsigned r))" by (simp add: float_literal_def Let_def)
  then have u: "unsigned r \<noteq> [] \<and> digit (hd (unsigned r))" by (rule int_part_ok_start)
  show ?thesis
  proof (cases "r \<noteq> [] \<and> hd r = 45")
    case True
    with u have "tl r \<noteq> [] \<and> digit (hd (tl r))" by (simp add: unsigned_def)
    with True show ?thesis by (cases r) (auto simp: number_start_def)
  next
    case False
    with u have "r \<noteq> [] \<and> digit (hd r)" by (auto simp: unsigned_def)
    then show ?thesis by (simp add: number_start_def)
  qed
qed

lemma float_not_int: "float_literal r \<Longrightarrow> \<not> int_literal r"
proof
  assume f: "float_literal r" and "int_literal r"
  then have "list_all digit (unsigned r)" by (simp add: int_literal_def int_part_ok_def)
  then have "dropWhile digit (unsigned r) = []" by (simp add: list_all_iff)
  with f show False by (simp add: float_literal_def Let_def)
qed

lemma parse_value_float_literal:
  assumes "float_literal r" and "list_all numchar r" and "delim rest"
  shows "parse_value (Suc n) (r @ rest) = Some (JFloat r, rest)"
proof -
  have "parse_value (Suc n) (r @ rest) = parse_number (r @ rest)"
    using assms(1) by (simp add: parse_value_number float_literal_start)
  with number_token [OF assms(2,3)] assms(1) show ?thesis
    by (simp add: parse_number_def float_not_int)
qed

lemma parse_value_float:
  assumes "float_repr r" and "delim rest"
  shows "parse_value (Suc n) (r @ rest) = Some (JFloat r, rest)"
proof -
  consider "r = str ''NaN''" | "r = str ''Infinity''" | "r = str ''-Infinity''"
    | "float_literal r \<and> list_all numchar r"
    using assms(1) by (auto simp: float_repr_def)
  then show ?thesis
  proof cases
    case 4
    with assms(2) show ?thesis by (simp add: parse_value_float_literal)
  qed (simp_all add: parse_value.simps parse_constant_def starts_with_def str_def)
qed

lemma parse_value_null: "parse_value (Suc n) (str ''null'' @ rest) = Some (JNull, rest)"
  by (simp add: parse_value.simps parse_constant_def starts_with_def str_def)

lemma parse_value_true: "parse_value (Suc n) (str ''true'' @ rest) = Some (JBool True, rest)"
  by (simp add: parse_value.simps parse_constant_def starts_with_def str_def)

lemma parse_value_false: "parse_value (Suc n) (str ''false'' @ rest) = Some (JBool False, rest)"
  by (simp add: parse_value.simps parse_constant_def starts_with_def str_def)

lemma parse_value_str: "parse_value (Suc n) (dumps_str s @ rest) = Some (JStr s, rest)"
  by (simp add: parse_value.simps dumps_str_def parse_chars_dumps)

subsection \<open>Where a value starts\<close>

lemma number_start_value: "number_start s \<Longrightarrow> s \<noteq> [] \<and> value_start (hd s)"
  by (auto simp: number_start_def value_start_def)

lemma float_repr_start: "float_repr r \<Longrightarrow> r \<noteq> [] \<and> value_start (hd r)"
proof -
  assume "float_repr r"
  then consider "r = str ''NaN''" | "r = str ''Infinity''" | "r = str ''-Infinity''"
    | "float_literal r"
    by (auto simp: float_repr_def)
  then show ?thesis
  proof cases
    case 4
    then have "number_start (r @ [])" by (rule float_literal_start)
    then show ?thesis using number_start_value by fastforce
  qed (simp_all add: str_def value_start_def)
qed

lemma dumps_start: "wf_json v \<Longrightarrow> dumps v \<noteq> [] \<and> value_start (hd (dumps v))"
proof (cases v)
  case (JInt i)
  have "number_start (str_int i @ [])" by (rule number_start_str_int)
  with JInt show ?thesis using number_start_value by fastforce
next
  case (JFloat r)
  assume "wf_json v"
  with JFloat show ?thesis by (simp add: float_repr_start)
qed (simp_all add: str_def value_start_def dumps_str_def)

lemma skip_ws_start: "s \<noteq> [] \<Longrightarrow> value_start (hd s) \<Longrightarrow> skip_ws s = s"
  by (cases s) (auto simp: skip_ws_def is_ws_def value_start_def digit_def)

lemma skip_ws_space: "skip_ws (32 # s) = skip_ws s"
  by (simp add: skip_ws_def is_ws_def)

lemma skip_ws_dumps: "wf_json v \<Longrightarrow> skip_ws (dumps v @ rest) = dumps v @ rest"
  using dumps_start [of v] by (intro skip_ws_start) auto

subsection \<open>Lists and objects\<close>

lemma delim_close: "delim (93 # r)" "delim (125 # r)" "delim (44 # r)"
  by (simp_all add: delim_def numchar_def digit_def)

lemma join_Cons2: "ys \<noteq> [] \<Longrightarrow> join sep (x # ys) = x @ sep @ join sep ys"
  by (cases ys) simp_all

lemma skip_ws_close: "skip_ws (93 # r) = 93 # r" "skip_ws (125 # r) = 125 # r"
  "skip_ws (44 # r) = 44 # r" "skip_ws (58 # r) = 58 # r"
  by (simp_all add: skip_ws_def is_ws_def)

lemma parse_items_join:
  assumes "\<forall>x\<in>set xs. \<forall>n rest. length (dumps x) \<le> n \<longrightarrow> delim rest \<longrightarrow>
             parse_value n (dumps x @ rest) = Some (x, rest)"
    and "list_all wf_json xs" and "xs \<noteq> []"
    and "length (join (str '', '') (map dumps xs)) < n"
  shows "parse_items n (join (str '', '') (map dumps xs) @ 93 # rest) = Some (xs, rest)"
  using assms
proof (induction xs arbitrary: n)
  case Nil
  then show ?case by simp
next
  case (Cons x xs)
  from Cons.prems(4) obtain m where n: "n = Suc m" by (cases n) auto
  from Cons.prems(1) have px: "\<And>k r. length (dumps x) \<le> k \<Longrightarrow> delim r \<Longrightarrow>
      parse_value k (dumps x @ r) = Some (x, r)"
    by simp
  show ?case
  proof (cases "xs = []")
    case True
    with Cons.prems(4) n have "length (dumps x) \<le> m" by simp
    then have "parse_value m (dumps x @ 93 # rest) = Some (x, 93 # rest)"
      using delim_close(1) by (rule px)
    with True show ?thesis by (simp add: n parse_value.simps skip_ws_close)
  next
    case False
    let ?tail = "join (str '', '') (map dumps xs) @ 93 # rest"
    from False have j: "join (str '', '') (map dumps (x # xs)) =
        dumps x @ str '', '' @ join (str '', '') (map dumps xs)"
      by (simp add: join_Cons2)
    have shape: "join (str '', '') (map dumps (x # xs)) @ 93 # rest = dumps x @ 44 # 32 # ?tail"
      unfolding j by (simp add: str_def)
    from Cons.prems(4) have len: "length (dumps x) \<le> m" "length (join (str '', '') (map dumps xs)) < m"
      unfolding j by (simp_all add: n str_def)
    have "parse_value m (dumps x @ 44 # 32 # ?tail) = Some (x, 44 # 32 # ?tail)"
      using len(1) delim_close(3) by (rule px)
    moreover have "parse_items m ?tail = Some (xs, rest)"
      using Cons.prems(1,2) False len(2) by (intro Cons.IH) simp_all
    moreover from False Cons.prems(2) obtain y ys where "xs = y # ys" "wf_json y"
      by (cases xs) auto
    then have "skip_ws ?tail = ?tail"
      using skip_ws_dumps [of y] by (cases ys) (simp_all add: str_def)
    ultimately show ?thesis
      unfolding shape by (simp add: n parse_value.simps skip_ws_close skip_ws_space)
  qed
qed

lemma parse_members_join:
  assumes "\<forall>kv\<in>set kvs. \<forall>n rest. length (dumps (snd kv)) \<le> n \<longrightarrow> delim rest \<longrightarrow>
             parse_value n (dumps (snd kv) @ rest) = Some (snd kv, rest)"
    and "list_all (\<lambda>kv. wf_json (snd kv)) kvs" and "kvs \<noteq> []"
    and "length (join (str '', '') (map member_text kvs)) < n"
  shows "parse_members n (join (str '', '') (map member_text kvs) @ 125 # rest) = Some (kvs, rest)"
  using assms
proof (induction kvs arbitrary: n)
  case Nil
  then show ?case by simp
next
  case (Cons kv kvs)
  obtain k v where kv: "kv = (k, v)" by (cases kv)
  from Cons.prems(4) obtain m where n: "n = Suc m" by (cases n) auto
  from Cons.prems(1) have pv: "\<And>i r. length (dumps v) \<le> i \<Longrightarrow> delim r \<Longrightarrow>
      parse_value i (dumps v @ r) = Some (v, r)"
    by (simp add: kv)
  from Cons.prems(2) have wf: "wf_json v" by (simp add: kv)
  have member: "member_text kv @ t =
      34 # concat (map escape_char k) @ 34 # 58 # 32 # dumps v @ t" for t
    by (simp add: member_text_def kv dumps_str_def str_def)
  have key: "parse_chars (concat (map escape_char k) @ 34 # 58 # 32 # dumps v @ t) =
      Some (k, 58 # 32 # dumps v @ t)" for t
    by (rule parse_chars_dumps)
  show ?case
  proof (cases "kvs = []")
    case True
    with Cons.prems(4) n have "length (dumps v) \<le> m" by (simp add: member_text_def kv)
    then have "parse_value m (dumps v @ 125 # rest) = Some (v, 125 # rest)"
      using delim_close(2) by (rule pv)
    with True show ?thesis
      using member [of "125 # rest"] key [of "125 # rest"] skip_ws_dumps [OF wf, of "125 # rest"]
      by (simp add: n kv parse_value.simps skip_ws_close skip_ws_space)
  next
    case False
    let ?tail = "join (str '', '') (map member_text kvs) @ 125 # rest"
    from False have j: "join (str '', '') (map member_text (kv # kvs)) =
        member_text kv @ str '', '' @ join (str '', '') (map member_text kvs)"
      by (simp add: join_Cons2)
    have shape: "join (str '', '') (map member_text (kv # kvs)) @ 125 # rest =
        member_text kv @ 44 # 32 # ?tail"
      unfolding j by (simp add: str_def)
    from Cons.prems(4) have len: "length (dumps v) \<le> m"
      "length (join (str '', '') (map member_text kvs)) < m"
      unfolding j by (simp_all add: n str_def member_text_def kv)
    have "parse_value m (dumps v @ 44 # 32 # ?tail) = Some (v, 44 # 32 # ?tail)"
      using len(1) delim_close(3) by (rule pv)
    moreover have "parse_members m ?tail = Some (kvs, rest)"
      using Cons.prems(1,2) False len(2) by (intro Cons.IH) simp_all
    moreover from False obtain kv' kvs' where "kvs = kv' # kvs'" by (cases kvs) auto
    then have "skip_ws ?tail = ?tail"
      by (cases kvs') (simp_all add: member_text_def dumps_str_def skip_ws_def is_ws_def)
    ultimately show ?thesis
      unfolding shape
      using member [of "44 # 32 # ?tail"] key [of "44 # 32 # ?tail"]
        skip_ws_dumps [OF wf, of "44 # 32 # ?tail"]
      by (simp add: n kv parse_value.simps skip_ws_close skip_ws_space)
  qed
qed

lemma dumps_obj_text:
  "dumps (JObj kvs) = 123 # join (str '', '') (map member_text kvs) @ [125]"
proof -
  have "(\<lambda>kv. dumps_str (fst kv) @ str '': '' @ dumps (snd kv)) = member_text"
    by (rule ext) (simp add: member_text_def)
  then show ?thesis by (simp add: str_def)
qed

lemma dumps_arr_text: "dumps (JArr xs) = 91 # join (str '', '') (map dumps xs) @ [93]"
  by (simp add: str_def)

lemma parse_value_dumps:
  "wf_json v \<Longrightarrow> length (dumps v) \<le> n \<Longrightarrow> delim rest \<Longrightarrow>
   parse_value n (dumps v @ rest) = Some (v, rest)"
proof (induction v arbitrary: n rest)
  case JNull
  then obtain m where "n = Suc m" by (cases n) (auto simp: str_def)
  then show ?case by (simp add: parse_value_null)
next
  case (JBool b)
  then obtain m where "n = Suc m" by (cases n) (auto simp: str_def split: if_splits)
  then show ?case by (simp add: parse_value_true parse_value_false)
next
  case (JInt i)
  have "str_int i \<noteq> []" using number_start_str_int [of i "[]"] by (auto simp: number_start_def)
  with JInt.prems obtain m where "n = Suc m" by (cases n) auto
  with JInt.prems show ?case by (simp add: parse_value_int)
next
  case (JFloat r)
  then have "r \<noteq> []" using float_repr_start [of r] by simp
  with JFloat.prems obtain m where "n = Suc m" by (cases n) auto
  with JFloat.prems show ?case by (simp add: parse_value_float)
next
  case (JStr s)
  then obtain m where "n = Suc m" by (cases n) (auto simp: dumps_str_def)
  then show ?case by (simp add: parse_value_str)
next
  case (JArr xs)
  from JArr.prems(2) obtain m where n: "n = Suc m"
    and m: "length (join (str '', '') (map dumps xs)) < m"
    unfolding dumps_arr_text by (cases n) auto
  show ?case
  proof (cases "xs = []")
    case True
    then show ?thesis by (simp add: n parse_value.simps str_def skip_ws_close)
  next
    case False
    let ?text = "join (str '', '') (map dumps xs) @ 93 # rest"
    from JArr.prems(1) have wf: "list_all wf_json xs" by simp
    have ih: "\<forall>x\<in>set xs. \<forall>n rest. length (dumps x) \<le> n \<longrightarrow> delim rest \<longrightarrow>
             parse_value n (dumps x @ rest) = Some (x, rest)"
      using JArr.IH wf by (auto simp: list_all_iff)
    have items: "parse_items m ?text = Some (xs, rest)"
      using ih wf False m by (rule parse_items_join)
    from False wf obtain y ys where xs: "xs = y # ys" and "wf_json y" by (cases xs) auto
    then have "dumps y \<noteq> [] \<and> value_start (hd (dumps y))" by (simp add: dumps_start)
    then obtain d r where d: "?text = d # r" "value_start d"
      unfolding xs by (cases "dumps y"; cases ys) auto
    then have "skip_ws ?text = d # r" "d \<noteq> 93"
      using skip_ws_start [of ?text] by (auto simp: value_start_def digit_def)
    with items d(1) show ?thesis
      unfolding dumps_arr_text by (simp add: n parse_value.simps)
  qed
next
  case (JObj kvs)
  from JObj.prems(2) obtain m where n: "n = Suc m"
    and m: "length (join (str '', '') (map member_text kvs)) < m"
    unfolding dumps_obj_text by (cases n) auto
  show ?case
  proof (cases "kvs = []")
    case True
    then show ?thesis by (simp add: n parse_value.simps str_def skip_ws_close)
  next
    case False
    let ?text = "join (str '', '') (map member_text kvs) @ 125 # rest"
    from JObj.prems(1) have wf: "list_all (\<lambda>kv. wf_json (snd kv)) kvs" by simp
    have ih: "\<forall>kv\<in>set kvs. \<forall>n rest. length (dumps (snd kv)) \<le> n \<longrightarrow> delim rest \<longrightarrow>
             parse_value n (dumps (snd kv) @ rest) = Some (snd kv, rest)"
    proof (intro ballI allI impI)
      fix kv n rest
      assume kv: "kv \<in> set kvs" and len: "length (dumps (snd kv)) \<le> n" and d: "delim rest"
      from kv wf have "wf_json (snd kv)" by (simp add: list_all_iff)
      moreover have "snd kv \<in> Basic_BNFs.snds kv" by (cases kv) simp
      ultimately show "parse_value n (dumps (snd kv) @ rest) = Some (snd kv, rest)"
        using JObj.IH [OF kv] len d by blast
    qed
    have members: "parse_members m ?text = Some (kvs, rest)"
      using ih wf False m by (rule parse_members_join)
    from False obtain kv kvs' where kvs: "kvs = kv # kvs'" by (cases kvs) auto
    then obtain r where r: "?text = 34 # r"
      by (cases kvs') (auto simp: member_text_def dumps_str_def)
    then have "skip_ws ?text = 34 # r" by (simp add: skip_ws_def is_ws_def)
    with members r show ?thesis
      unfolding dumps_obj_text by (simp add: n parse_value.simps)
  qed
qed

lemma loads_dumps: "wf_json v \<Longrightarrow> loads (dumps v) = Some v"
proof -
  assume wf: "wf_json v"
  then have "parse_value (length (dumps v)) (dumps v @ []) = Some (v, [])"
    by (intro parse_value_dumps) (simp_all add: delim_def)
  moreover have "skip_ws (dumps v) = dumps v" using skip_ws_dumps [OF wf, of "[]"] by simp
  ultimately show ?thesis by (simp add: loads_def skip_ws_def)
qed

subsection \<open>Lines of the artifact\<close>

lemma set_join: "set (join sep xs) \<subseteq> set sep \<union> (\<Union>x\<in>set xs. set x)"
  by (induction sep xs rule: join.induct) auto

lemma escape_char_no_break: "c = 10 \<or> c = 13 \<Longrightarrow> c \<notin> set (escape_char x)"
  by (auto simp: escape_char_def hex_digit_def)

lemma dumps_str_no_break: "c = 10 \<or> c = 13 \<Longrightarrow> c \<notin> set (dumps_str s)"
  using escape_char_no_break [of c] by (auto simp: dumps_str_def)

lemma numchar_no_break: "list_all numchar s \<Longrightarrow> c = 10 \<or> c = 13 \<Longrightarrow> c \<notin> set s"
  by (auto simp: list_all_iff numchar_def digit_def)

lemma float_repr_no_break: "float_repr r \<Longrightarrow> c = 10 \<or> c = 13 \<Longrightarrow> c \<notin> set r"
  using numchar_no_break [of r c] by (auto simp: float_repr_def str_def)

lemma dumps_no_break: "wf_json v \<Longrightarrow> c = 10 \<or> c = 13 \<Longrightarrow> c \<notin> set (dumps v)"
proof (induction v)
  case (JInt i)
  then show ?case using numchar_no_break [OF numchar_str_int, of c i] by simp
next
  case (JFloat r)
  then show ?case by (simp add: float_repr_no_break)
next
  case (JStr s)
  then show ?case by (simp add: dumps_str_no_break)
next
  case (JArr xs)
  then have "\<forall>x\<in>set xs. c \<notin> set (dumps x)" by (simp add: list_all_iff)
  with JArr.prems(2) have "c \<notin> set (join (str '', '') (map dumps xs))"
    using set_join [of "str '', ''" "map dumps xs"] by (auto simp: str_def)
  with JArr.prems(2) show ?case unfolding dumps_arr_text by auto
next
  case (JObj kvs)
  have "c \<notin> set (member_text kv)" if "kv \<in> set kvs" for kv
  proof -
    from that JObj.prems have "wf_json (snd kv)" by (simp add: list_all_iff)
    moreover have "snd kv \<in> Basic_BNFs.snds kv" by (cases kv) simp
    ultimately have "c \<notin> set (dumps (snd kv))" using JObj.IH [OF that] JObj.prems(2) by blast
    with JObj.prems(2) show ?thesis
      using dumps_str_no_break [of c "fst kv"] by (auto simp: member_text_def str_def)
  qed
  with JObj.prems(2) have "c \<notin> set (join (str '', '') (map member_text kvs))"
    using set_join [of "str '', ''" "map member_text kvs"] by (auto simp: str_def)
  with JObj.prems(2) show ?case unfolding dumps_obj_text by auto
qed (auto simp: str_def)


lemma dumps_no_newline: "wf_json v \<Longrightarrow> 10 \<notin> set (dumps v)"
  by (simp add: dumps_no_break)

lemma str_split_line: "sep \<notin> set l \<Longrightarrow> str_split sep (l @ sep # t) = l # str_split sep t"
proof (induction l)
  case Nil
  then show ?case by (cases "str_split sep t") (simp_all add: str_split_nonempty)
next
  case (Cons c l)
  then show ?case by simp
qed

lemma str_split_artifact:
  "list_all wf_json reqs \<Longrightarrow> str_split 10 (artifact reqs) = map dumps reqs @ [[]]"
proof (induction reqs)
  case Nil
  then show ?case by (simp add: artifact_def)
next
  case (Cons r reqs)
  then have "10 \<notin> set (dumps r)" by (simp add: dumps_no_newline)
  then have "str_split 10 (dumps r @ 10 # artifact reqs) = dumps r # str_split 10 (artifact reqs)"
    by (rule str_split_line)
  with Cons show ?case by (simp add: artifact_def)
qed

lemma jsonl_lines_artifact: "list_all wf_json reqs \<Longrightarrow> jsonl_lines (artifact reqs) = map dumps reqs"
  by (simp add: jsonl_lines_def str_split_artifact)

lemma count_lines_line:
  "st \<noteq> AfterCR \<Longrightarrow> 10 \<notin> set l \<Longrightarrow> 13 \<notin> set l \<Longrightarrow>
   count_lines st (l @ 10 # t) = 1 + count_lines AtStart t"
  by (induction l arbitrary: st) auto

lemma count_lines_artifact:
  "list_all wf_json reqs \<Longrightarrow> count_lines AtStart (artifact reqs) = length reqs"
proof (induction reqs)
  case Nil
  then show ?case by (simp add: artifact_def)
next
  case (Cons r reqs)
  then have "10 \<notin> set (dumps r)" "13 \<notin> set (dumps r)" by (simp_all add: dumps_no_break)
  then have "count_lines AtStart (dumps r @ 10 # artifact reqs) =
      1 + count_lines AtStart (artifact reqs)"
    by (intro count_lines_line) simp_all
  with Cons show ?case by (simp add: artifact_def)
qed

subsection \<open>The requests are well-formed, and their targets are the URLs\<close>

lemma wf_make_request_line:
  "float_repr temperature \<Longrightarrow> wf_json (make_request_line idx url model temperature)"
  by (simp add: make_request_line_def build_json_schema_def DIMENSIONS_def str_def)

lemma wf_requests:
  "float_repr temperature \<Longrightarrow> list_all wf_json (requests i urls model temperature)"
  by (induction urls arbitrary: i) (simp_all add: wf_make_request_line)

lemma str_strip_idem: "str_strip (str_strip s) = str_strip s"
proof -
  define u where "u = dropWhile isspace s"
  define w where "w = dropWhile isspace (rev u)"
  have t: "str_strip s = rev w" by (simp add: str_strip_def u_def w_def)
  have "rev u = takeWhile isspace (rev u) @ w" by (simp add: w_def)
  then have u: "u = rev w @ rev (takeWhile isspace (rev u))"
    by (metis rev_append rev_rev_ident)
  have front: "dropWhile isspace (rev w) = rev w"
  proof (cases "rev w")
    case Nil
    then show ?thesis by simp
  next
    case (Cons c cs)
    from u obtain x where "u = rev w @ x" by blast
    with Cons have "hd u = c" "u \<noteq> []" by auto
    moreover have "\<not> isspace (hd u)" if "u \<noteq> []"
      using that unfolding u_def by (rule hd_dropWhile)
    ultimately show ?thesis using Cons by simp
  qed
  have rear: "dropWhile isspace w = w" by (simp add: w_def)
  have "str_strip (rev w) = rev (dropWhile isspace (rev (dropWhile isspace (rev w))))"
    by (simp only: str_strip_def)
  also have "\<dots> = rev (dropWhile isspace (rev (rev w)))" by (simp only: front)
  also have "\<dots> = rev w" by (simp only: rev_rev_ident rear)
  finally show ?thesis by (simp only: t)
qed

lemma read_urls_stripped: "map str_strip (read_urls lns) = read_urls lns"
  by (simp add: read_urls_def str_strip_idem)

lemma requests_targets:
  "map request_target (requests i urls model temperature) = map (\<lambda>u. Some (str_strip u)) urls"
  by (induction urls arbitrary: i) (simp_all add: request_target_make)

lemma main_success:
  assumes "snd (main lns out_path model temperature fs) = None"
  shows "read_urls lns \<noteq> [] \<and>
         fst (main lns out_path model temperature fs) out_path =
           Some (artifact (requests 1 (read_urls lns) model temperature))"
proof -
  let ?reqs = "requests 1 (read_urls lns) model temperature"
  let ?ok = "takeWhile (\<lambda>r. utf8_encodable (dumps r @ [10])) ?reqs"
  from assms have ne: "read_urls lns \<noteq> []" by (auto simp: main_def Let_def)
  with assms have "length ?ok = length ?reqs"
    by (simp add: main_closed_form length_requests split: if_splits)
  then have all: "?ok = ?reqs" by (metis takeWhile_eq_take take_all order_refl)
  have "fst (main lns out_path model temperature fs) = fs(out_path \<mapsto> artifact ?ok)"
    unfolding main_closed_form [OF ne] by simp
  then have "fst (main lns out_path model temperature fs) out_path = Some (artifact ?ok)"
    by simp
  with ne show ?thesis unfolding all by simp
qed

lemma encodable_line:
  "utf8_encodable (dumps (make_request_line 1 (str ''http://x/a.png'') (str ''gpt-4o'') (str ''0.2'')) @ [10])"
  by (simp add: make_request_line_def build_json_schema_def DIMENSIONS_def PROMPT_def eval_defs
      dumps_str_def escape_char_def utf8_encodable_def str_int_def)

lemma float_repr_0_2: "float_repr (str ''0.2'')"
  by (simp add: float_repr_def float_literal_def unsigned_def int_part_ok_def numchar_def
      digit_def str_def)

text \<open>
  Claim C7. When the build succeeds, the artifact at the output path has exactly one line
  per URL (cut at the newlines, and also counted the way Python iterates over a text
  file), in the order of the input. Line \<open>k\<close> is the JSON text of request \<open>k\<close>; read back on its
  own it gives that request again, whose identifier is that of index \<open>k + 1\<close> and URL \<open>k\<close>
  and whose target is URL \<open>k\<close>. (The temperature is a float, so its text is one that
  \<open>repr\<close> gives for a float.)
\<close>

theorem artifact_round_trip:
  "float_repr temperature \<Longrightarrow> snd (main lns out_path model temperature fs) = None \<Longrightarrow>
   (\<exists>content. fst (main lns out_path model temperature fs) out_path = Some content \<and>
      length (jsonl_lines content) = length (read_urls lns) \<and>
      count_lines AtStart content = length (read_urls lns) \<and>
      jsonl_lines content = map dumps (requests 1 (read_urls lns) model temperature) \<and>
      map loads (jsonl_lines content) = map Some (requests 1 (read_urls lns) model temperature) \<and>
      map (\<lambda>line. Option.bind (loads line) request_custom_id) (jsonl_lines content) =
        map (\<lambda>k. Some (custom_id (1 + int k) (read_urls lns ! k))) [0..<length (read_urls lns)] \<and>
      map (\<lambda>line. Option.bind (loads line) request_target) (jsonl_lines content) =
        map Some (read_urls lns))"
proof -
  assume t: "float_repr temperature" and ok: "snd (main lns out_path model temperature fs) = None"
  let ?urls = "read_urls lns"
  let ?reqs = "requests 1 ?urls model temperature"
  from t have wf: "list_all wf_json ?reqs" by (rule wf_requests)
  then have lines: "jsonl_lines (artifact ?reqs) = map dumps ?reqs" by (rule jsonl_lines_artifact)
  have parsed: "map loads (map dumps ?reqs) = map Some ?reqs"
    using wf by (simp add: list_all_iff loads_dumps)
  have ids: "map (\<lambda>line. Option.bind (loads line) request_custom_id) (map dumps ?reqs) =
      map (\<lambda>k. Some (custom_id (1 + int k) (?urls ! k))) [0..<length ?urls]"
  proof -
    have "map (\<lambda>line. Option.bind (loads line) request_custom_id) (map dumps ?reqs) =
        map request_custom_id ?reqs"
      using wf by (simp add: list_all_iff loads_dumps)
    then show ?thesis by (simp add: requests_ids)
  qed
  have targets: "map (\<lambda>line. Option.bind (loads line) request_target) (map dumps ?reqs) =
      map Some ?urls"
  proof -
    have "map (\<lambda>line. Option.bind (loads line) request_target) (map dumps ?reqs) =
        map request_target ?reqs"
      using wf by (simp add: list_all_iff loads_dumps)
    also have "\<dots> = map (\<lambda>u. Some (str_strip u)) ?urls" by (rule requests_targets)
    also have "\<dots> = map Some (map str_strip ?urls)" by simp
    finally show ?thesis by (simp only: read_urls_stripped)
  qed
  from ok have "fst (main lns out_path model temperature fs) out_path = Some (artifact ?reqs)"
    using main_success by blast
  moreover have "count_lines AtStart (artifact ?reqs) = length ?urls"
    using wf by (simp add: count_lines_artifact length_requests)
  ultimately show ?thesis using lines parsed ids targets by (simp add: length_requests)
qed

theorem artifact_round_trip_witness:
  "float_repr (str ''0.2'') \<and>
   snd (main [str ''http://x/a.png''] (str ''out.jsonl'') (str ''gpt-4o'') (str ''0.2'') Map.empty) = None \<and>
   (\<exists>content. fst (main [str ''http://x/a.png''] (str ''out.jsonl'') (str ''gpt-4o'') (str ''0.2'')
                   Map.empty) (str ''out.jsonl'') = Some content \<and>
      length (jsonl_lines content) = 1 \<and>
      map (\<lambda>line. Option.bind (loads line) request_custom_id) (jsonl_lines content) =
        [Some (str ''ui-00001-a.png'')] \<and>
      map (\<lambda>line. Option.bind (loads line) request_target) (jsonl_lines content) =
        [Some (str ''http://x/a.png'')])"
proof -
  have ok: "snd (main [str ''http://x/a.png''] (str ''out.jsonl'') (str ''gpt-4o'') (str ''0.2'') Map.empty) = None"
    using encodable_line by (simp add: main_closed_form read_urls_one)
  from artifact_round_trip [OF float_repr_0_2 ok]
  obtain content where
    "fst (main [str ''http://x/a.png''] (str ''out.jsonl'') (str ''gpt-4o'') (str ''0.2'')
            Map.empty) (str ''out.jsonl'') = Some content"
    "length (jsonl_lines content) = 1"
    "map (\<lambda>line. Option.bind (loads line) request_custom_id) (jsonl_lines content) =
        [Some (str ''ui-00001-a.png'')]"
    "map (\<lambda>line. Option.bind (loads line) request_target) (jsonl_lines content) =
        [Some (str ''http://x/a.png'')]"
    by (auto simp: read_urls_one custom_id_a_png)
  then have "\<exists>content.
      fst (main [str ''http://x/a.png''] (str ''out.jsonl'') (str ''gpt-4o'') (str ''0.2'')
             Map.empty) (str ''out.jsonl'') = Some content \<and>
      length (jsonl_lines content) = 1 \<and>
      map (\<lambda>line. Option.bind (loads line) request_custom_id) (jsonl_lines content) =
        [Some (str ''ui-00001-a.png'')] \<and>
      map (\<lambda>line. Option.bind (loads line) request_target) (jsonl_lines content) =
        [Some (str ''http://x/a.png'')]"
    by (intro exI [of _ content] conjI)
  with float_repr_0_2 ok show ?thesis by (intro conjI)
qed

end
